theory Spec2Isabelle
  imports Complex_Main "HOL-Library.Char_ord" "HOL-Library.List_Lexorder" "HOL-Library.Log_Nat"
begin

section \<open>Data model of hw2_1.py\<close>

text \<open>
  Python \<open>str\<close> values are modelled by their UTF-8 bytes (\<open>string\<close>). Equality,
  \<open>endswith\<close> with an ASCII argument and the lexicographic order used by \<open>sorted\<close>
  agree on code points and on UTF-8 bytes.

  A Python \<open>dict\<close> keeps its keys in insertion order and the code reads keys by
  position (\<open>list(content.keys())[1]\<close>), so a dict is an association list.
\<close>

datatype error =
    FileNotFoundError string
  | IsADirectoryError
  | PermissionError
  | StopIteration
  | IndexError
  | KeyError string
  | ValueError string
  | ZeroDivisionError
  | OverflowError

text \<open>
  \<open>FileNotFoundError\<close> carries its message, \<open>KeyError\<close> the missing key, and
  \<open>ValueError\<close> the name of the builtin that raised it (\<open>int\<close>, \<open>min\<close> or \<open>max\<close>).
\<close>

type_synonym 'v dict = "(string \<times> 'v) list"

type_synonym table = "string list dict"

text \<open>
  What \<open>open(file, newline='', encoding='utf-8')\<close> finds at a path: nothing, a
  directory, a file that may not be read, or a file, given by the records that
  \<open>csv.reader(csvfile, delimiter=';')\<close> yields for it.
\<close>

datatype entry = NoFile | Directory | NoPermission | Records "string list list"

type_synonym filesystem = "string \<Rightarrow> entry"

definition bind :: "error + 'a \<Rightarrow> ('a \<Rightarrow> error + 'b) \<Rightarrow> error + 'b" where
  "bind m f = (case m of Inl e \<Rightarrow> Inl e | Inr x \<Rightarrow> f x)"

text \<open>\<open>d[k] = v\<close>: an existing key keeps its position, a new key goes last.\<close>

fun dict_set :: "'v dict \<Rightarrow> string \<Rightarrow> 'v \<Rightarrow> 'v dict" where
  "dict_set [] k v = [(k, v)]"
| "dict_set ((k', v') # kvs) k v =
     (if k' = k then (k', v) # kvs else (k', v') # dict_set kvs k v)"

text \<open>\<open>d[k]\<close> as an expression.\<close>

definition dict_get :: "'v dict \<Rightarrow> string \<Rightarrow> error + 'v" where
  "dict_get d k = (case map_of d k of None \<Rightarrow> Inl (KeyError k) | Some v \<Rightarrow> Inr v)"

definition keys :: "'v dict \<Rightarrow> string list" where
  "keys d = map fst d"

text \<open>\<open>xs[i]\<close> for a literal index, negative indices counting from the end.\<close>

definition py_index :: "'a list \<Rightarrow> int \<Rightarrow> error + 'a" where
  "py_index xs i =
     (if 0 \<le> i then (if nat i < length xs then Inr (xs ! nat i) else Inl IndexError)
      else (if nat (- i) \<le> length xs then Inr (xs ! (length xs - nat (- i)))
            else Inl IndexError))"

definition endswith :: "string \<Rightarrow> string \<Rightarrow> bool" where
  "endswith s suffix =
     (length suffix \<le> length s \<and> drop (length s - length suffix) s = suffix)"

section \<open>get_data\<close>

definition not_found_prefix :: string where
  "not_found_prefix =
     [CHR 0xD0, CHR 0x9D, CHR 0xD0, CHR 0xB5, CHR 0xD1, CHR 0x82, CHR 0x20, CHR 0xD1,
      CHR 0x84, CHR 0xD0, CHR 0xB0, CHR 0xD0, CHR 0xB9, CHR 0xD0, CHR 0xBB, CHR 0xD0,
      CHR 0xB0, CHR 0x20, CHR 0xD1, CHR 0x81, CHR 0x20, CHR 0xD0, CHR 0xB8, CHR 0xD0,
      CHR 0xBC, CHR 0xD0, CHR 0xB5, CHR 0xD0, CHR 0xBD, CHR 0xD0, CHR 0xB5, CHR 0xD0,
      CHR 0xBC, CHR 0x20]"

definition not_found_suffix :: string where
  "not_found_suffix =
     [CHR 0x20, CHR 0xD0, CHR 0xB2, CHR 0x20, CHR 0xD0, CHR 0xBB, CHR 0xD0, CHR 0xBE,
      CHR 0xD0, CHR 0xBA, CHR 0xD0, CHR 0xB0, CHR 0xD0, CHR 0xBB, CHR 0xD1, CHR 0x8C,
      CHR 0xD0, CHR 0xBD, CHR 0xD0, CHR 0xBE, CHR 0xD0, CHR 0xB9, CHR 0x20, CHR 0xD0,
      CHR 0xB4, CHR 0xD0, CHR 0xB8, CHR 0xD1, CHR 0x80, CHR 0xD0, CHR 0xB5, CHR 0xD0,
      CHR 0xBA, CHR 0xD1, CHR 0x82, CHR 0xD0, CHR 0xBE, CHR 0xD1, CHR 0x80, CHR 0xD0,
      CHR 0xB8, CHR 0xD0, CHR 0xB8]"

text \<open>
  The two constants are the UTF-8 bytes of the text before and after \<open>{file}\<close> in the
  f-string of line 36.
\<close>

text \<open>
  Lines 31-32, one record: \<open>for i, tag in enumerate(tags): content[tag].append(row[i])\<close>.
  \<open>content[tag]\<close> is evaluated before \<open>row[i]\<close>.
\<close>

fun append_row :: "table \<Rightarrow> (nat \<times> string) list \<Rightarrow> string list \<Rightarrow> error + table" where
  "append_row content [] row = Inr content"
| "append_row content ((i, tag) # rest) row =
     bind (dict_get content tag) (\<lambda>column.
       if i < length row
       then append_row (dict_set content tag (column @ [row ! i])) rest row
       else Inl IndexError)"

text \<open>Line 30: \<open>for row in reader\<close>.\<close>

fun read_rows :: "table \<Rightarrow> string list \<Rightarrow> string list list \<Rightarrow> error + table" where
  "read_rows content tags [] = Inr content"
| "read_rows content tags (row # rows) =
     bind (append_row content (enumerate 0 tags) row) (\<lambda>content'.
       read_rows content' tags rows)"

text \<open>Line 29: \<open>{tag: [] for tag in tags}\<close>.\<close>

definition empty_columns :: "string list \<Rightarrow> table" where
  "empty_columns tags = foldl (\<lambda>content tag. dict_set content tag []) [] tags"

text \<open>Lines 23-24 (and 135-136): \<open>if not file.endswith('.csv'): file += '.csv'\<close>.\<close>

definition add_csv_suffix :: "string \<Rightarrow> string" where
  "add_csv_suffix file = (if \<not> endswith file ''.csv'' then file @ ''.csv'' else file)"

text \<open>
  Lines 25-36. The \<open>except\<close> clause of line 34 catches \<open>FileNotFoundError\<close> only and
  raises it again with the message of line 36; the other errors of \<open>open\<close> propagate.
\<close>

definition get_data :: "filesystem \<Rightarrow> string \<Rightarrow> error + table" where
  "get_data fs file0 =
     (let file = add_csv_suffix file0
      in case fs file of
           NoFile \<Rightarrow> Inl (FileNotFoundError (not_found_prefix @ file @ not_found_suffix))
         | Directory \<Rightarrow> Inl IsADirectoryError
         | NoPermission \<Rightarrow> Inl PermissionError
         | Records records \<Rightarrow>
             (case records of
                [] \<Rightarrow> Inl StopIteration
              | tags # rows \<Rightarrow> read_rows (empty_columns tags) tags rows))"

section \<open>Builtins used by the aggregators and the export\<close>

subsection \<open>Characters\<close>

text \<open>
  A string is the list of the bytes of its UTF-8 encoding, so that the order of strings
  is the order of Python's \<open>str\<close>. The characters of a string are recovered from the
  leading bytes: \<open>char_width\<close> is the number of bytes of the character that a byte
  starts (0 for a byte that starts none), \<open>characters\<close> cuts a string into its
  characters (\<open>None\<close> when the bytes are not an encoding), and \<open>code_point\<close> is the code
  point of one character.
\<close>

definition char_width :: "char \<Rightarrow> nat" where
  "char_width c =
     (if c < CHR 0x80 then 1
      else if c < CHR 0xC0 then 0
      else if c < CHR 0xE0 then 2
      else if c < CHR 0xF0 then 3
      else if c < CHR 0xF8 then 4
      else 0)"

function characters :: "string \<Rightarrow> string list option" where
  "characters s =
     (if s = [] then Some []
      else if char_width (hd s) = 0 \<or> length s < char_width (hd s) then None
      else map_option ((#) (take (char_width (hd s)) s))
             (characters (drop (char_width (hd s)) s)))"
  by pat_completeness auto
termination
  by (relation "measure length") auto

declare characters.simps [simp del]

definition code_point :: "string \<Rightarrow> nat" where
  "code_point ch =
     (case ch of
        [] \<Rightarrow> 0
      | c # cs \<Rightarrow>
          foldl (\<lambda>acc b. acc * 64 + of_char b mod 64)
            (of_char c mod (if cs = [] then 128 else 2 ^ (6 - length cs))) cs)"

subsection \<open>Whitespace\<close>

text \<open>
  The code points for which \<open>str.isspace\<close> holds: tab, line feed, vertical tab, form
  feed, carriage return, the separators \<open>0x1C\<close> to \<open>0x1F\<close>, space, and beyond ASCII
  U+0085, U+00A0, U+1680, U+2000 to U+200A, U+2028, U+2029, U+202F, U+205F and U+3000.
\<close>

definition is_space :: "nat \<Rightarrow> bool" where
  "is_space cp =
     ((0x09 \<le> cp \<and> cp \<le> 0x0D) \<or> (0x1C \<le> cp \<and> cp \<le> 0x20) \<or> cp = 0x85 \<or> cp = 0xA0 \<or>
      cp = 0x1680 \<or> (0x2000 \<le> cp \<and> cp \<le> 0x200A) \<or> cp = 0x2028 \<or> cp = 0x2029 \<or>
      cp = 0x202F \<or> cp = 0x205F \<or> cp = 0x3000)"

text \<open>
  \<open>s.strip()\<close>: the whitespace characters are removed from both ends. A byte list that
  is not an encoding, which no Python \<open>str\<close> gives, is left as it is.
\<close>

definition strip :: "string \<Rightarrow> string" where
  "strip s =
     (case characters s of
        None \<Rightarrow> s
      | Some chs \<Rightarrow>
          concat (rev (dropWhile (\<lambda>ch. is_space (code_point ch))
                   (rev (dropWhile (\<lambda>ch. is_space (code_point ch)) chs)))))"

subsection \<open>\<open>int(str)\<close>\<close>

text \<open>
  \<open>int(s)\<close> on a string, base 10. On an ASCII string: tab, line feed, vertical tab,
  form feed, carriage return and space are skipped at both ends (not the separators
  \<open>0x1C\<close> to \<open>0x1F\<close>), one sign is allowed, then decimal digits, where single underscores
  may separate digits; anything else raises \<open>ValueError\<close>, and so does a string of more
  than 4300 digits, the default of \<open>sys.int_max_str_digits\<close> since CPython 3.11.
\<close>

definition int_space :: "char \<Rightarrow> bool" where
  "int_space c = ((CHR 0x09 \<le> c \<and> c \<le> CHR 0x0D) \<or> c = CHR 0x20)"

definition strip_with :: "(char \<Rightarrow> bool) \<Rightarrow> string \<Rightarrow> string" where
  "strip_with space s = rev (dropWhile space (rev (dropWhile space s)))"

definition is_digit :: "char \<Rightarrow> bool" where
  "is_digit c = (CHR ''0'' \<le> c \<and> c \<le> CHR ''9'')"

definition digit_val :: "char \<Rightarrow> nat option" where
  "digit_val c = (if is_digit c then Some (of_char c - 48) else None)"

fun digits_from :: "nat \<Rightarrow> string \<Rightarrow> nat option" where
  "digits_from acc [] = Some acc"
| "digits_from acc [c] =
     (case digit_val c of None \<Rightarrow> None | Some v \<Rightarrow> Some (10 * acc + v))"
| "digits_from acc (c # d # ds) =
     (if c = CHR ''_''
      then (case digit_val d of None \<Rightarrow> None | Some v \<Rightarrow> digits_from (10 * acc + v) ds)
      else (case digit_val c of None \<Rightarrow> None | Some v \<Rightarrow> digits_from (10 * acc + v) (d # ds)))"

definition digits :: "string \<Rightarrow> nat option" where
  "digits s =
     (case s of
        [] \<Rightarrow> None
      | c # cs \<Rightarrow> (case digit_val c of None \<Rightarrow> None | Some v \<Rightarrow> digits_from v cs))"

definition int_max_str_digits :: nat where
  "int_max_str_digits = 4300"

definition ascii_int :: "string \<Rightarrow> int option" where
  "ascii_int s =
     (let body = strip_with int_space s
      in if int_max_str_digits < length (filter is_digit body) then None
         else (case body of
                 [] \<Rightarrow> None
               | c # cs \<Rightarrow>
                   if c = CHR ''-'' then map_option (\<lambda>n. - int n) (digits cs)
                   else if c = CHR ''+'' then map_option int (digits cs)
                   else map_option int (digits (c # cs))))"

text \<open>
  On a string with characters beyond ASCII, \<open>int\<close> first replaces every whitespace
  character beyond ASCII by a space and every decimal digit beyond ASCII by its ASCII
  digit, and raises \<open>ValueError\<close> when another character beyond ASCII occurs; the
  result is parsed as above. The decimal digits of Unicode 14.0 (CPython 3.11) come in
  66 runs of ten, from zero to nine; \<open>decimal_zeros\<close> lists the code points of the
  zeros.
\<close>

definition decimal_zeros :: "nat list" where
  "decimal_zeros =
     [0x30, 0x660, 0x6F0, 0x7C0, 0x966, 0x9E6, 0xA66, 0xAE6, 0xB66, 0xBE6, 0xC66, 0xCE6,
      0xD66, 0xDE6, 0xE50, 0xED0, 0xF20, 0x1040, 0x1090, 0x17E0, 0x1810, 0x1946, 0x19D0,
      0x1A80, 0x1A90, 0x1B50, 0x1BB0, 0x1C40, 0x1C50, 0xA620, 0xA8D0, 0xA900, 0xA9D0,
      0xA9F0, 0xAA50, 0xABF0, 0xFF10, 0x104A0, 0x10D30, 0x11066, 0x110F0, 0x11136, 0x111D0,
      0x112F0, 0x11450, 0x114D0, 0x11650, 0x116C0, 0x11730, 0x118E0, 0x11950, 0x11C50,
      0x11D50, 0x11DA0, 0x16A60, 0x16AC0, 0x16B50, 0x1D7CE, 0x1D7D8, 0x1D7E2, 0x1D7EC,
      0x1D7F6, 0x1E140, 0x1E2F0, 0x1E950, 0x1FBF0]"

definition decimal_value :: "nat \<Rightarrow> nat option" where
  "decimal_value cp =
     map_option (\<lambda>zero. cp - zero) (find (\<lambda>zero. zero \<le> cp \<and> cp < zero + 10) decimal_zeros)"

definition to_ascii_char :: "string \<Rightarrow> char option" where
  "to_ascii_char ch =
     (case ch of
        [c] \<Rightarrow> if c < CHR 0x7F then Some c else None
      | _ \<Rightarrow>
          if is_space (code_point ch) then Some CHR 0x20
          else map_option (\<lambda>d. ''0123456789'' ! d) (decimal_value (code_point ch)))"

definition to_ascii :: "string \<Rightarrow> string option" where
  "to_ascii s =
     (case characters s of None \<Rightarrow> None | Some chs \<Rightarrow> those (map to_ascii_char chs))"

definition is_ascii :: "string \<Rightarrow> bool" where
  "is_ascii s = list_all (\<lambda>c. c < CHR 0x80) s"

definition py_int :: "string \<Rightarrow> error + int" where
  "py_int s =
     (let parsed =
        (if is_ascii s then ascii_int s
         else (case to_ascii s of None \<Rightarrow> None | Some t \<Rightarrow> ascii_int t))
      in case parsed of None \<Rightarrow> Inl (ValueError ''int'') | Some n \<Rightarrow> Inr n)"

subsection \<open>\<open>min\<close>, \<open>max\<close>\<close>

definition py_min :: "int list \<Rightarrow> error + int" where
  "py_min xs = (case xs of [] \<Rightarrow> Inl (ValueError ''min'') | x # rest \<Rightarrow> Inr (fold min rest x))"

definition py_max :: "int list \<Rightarrow> error + int" where
  "py_max xs = (case xs of [] \<Rightarrow> Inl (ValueError ''max'') | x # rest \<Rightarrow> Inr (fold max rest x))"

subsection \<open>Floats: \<open>int / int\<close> and \<open>round(float, 2)\<close>\<close>

text \<open>
  A Python float is an IEEE 754 binary64 number. A finite float is modelled by its exact
  value, a rational; the sign of zero is not modelled. Both \<open>int / int\<close> and
  \<open>round(x, 2)\<close> are correctly rounded in CPython: the first returns the float nearest to
  the exact quotient, the second the float nearest to the decimal obtained by rounding
  the exact value of \<open>x\<close> to two places, ties going to the even neighbour in every
  rounding step.
\<close>

text \<open>Round to the nearest integer, ties to even.\<close>

definition rne :: "rat \<Rightarrow> int" where
  "rne x =
     (let f = \<lfloor>x\<rfloor>; r = x - of_int f
      in if r < 1 / 2 then f else if 1 / 2 < r then f + 1 else if even f then f else f + 1)"

text \<open>\<open>ilog2 q\<close> is the binary exponent of a positive \<open>q\<close>: \<open>2 ^ ilog2 q \<le> q < 2 ^ (ilog2 q + 1)\<close>.\<close>

definition ilog2 :: "rat \<Rightarrow> int" where
  "ilog2 q =
     (let (a, b) = quotient_of q; d = bitlen a - bitlen b
      in if 2 powi d \<le> q then d else d - 1)"

text \<open>
  The binary64 number nearest to \<open>x\<close>, with 53 significant bits, exponents below
  \<open>-1022\<close> sharing the spacing of the subnormal numbers, and no upper limit on the
  exponent: the callers check the range.
\<close>

definition to_double :: "rat \<Rightarrow> rat" where
  "to_double x =
     (if x = 0 then 0
      else let e = max (ilog2 \<bar>x\<bar>) (- 1022); ulp = 2 powi (e - 52)
           in of_int (rne (x / ulp)) * ulp)"

definition py_truediv :: "int \<Rightarrow> int \<Rightarrow> error + rat" where
  "py_truediv a b =
     (if b = 0 then Inl ZeroDivisionError
      else let r = to_double (of_int a / of_int b)
           in if 2 powi 1024 \<le> \<bar>r\<bar> then Inl OverflowError else Inr r)"

definition py_round2 :: "rat \<Rightarrow> rat" where
  "py_round2 x = to_double (of_int (rne (x * 100)) / 100)"

section \<open>get_teams\<close>

text \<open>Lines 71-72: \<open>out[department].add(division)\<close> for each zipped pair.\<close>

fun add_divisions :: "string set dict \<Rightarrow> (string \<times> string) list \<Rightarrow> error + string set dict" where
  "add_divisions out [] = Inr out"
| "add_divisions out ((department, division) # rest) =
     bind (dict_get out department) (\<lambda>teams.
       add_divisions (dict_set out department (insert division teams)) rest)"

text \<open>
  Lines 67 and 68 evaluate \<open>content[list(content.keys())[1]]\<close> twice, with the same
  result; the model evaluates it once.
\<close>

definition get_teams :: "filesystem \<Rightarrow> string \<Rightarrow> error + string set dict" where
  "get_teams fs file =
     bind (get_data fs file) (\<lambda>content.
     bind (py_index (keys content) 1) (\<lambda>department_key.
     bind (dict_get content department_key) (\<lambda>departments.
     let departments_unique = sort (remdups departments) in
     bind (py_index (keys content) 2) (\<lambda>division_key.
     bind (dict_get content division_key) (\<lambda>divisions.
     let out = foldl (\<lambda>d key. dict_set d key {}) [] departments_unique in
     add_divisions out (zip departments divisions))))))"

section \<open>get_reports\<close>

record department_report =
  min_salary :: int
  max_salary :: int
  head_count :: nat
  mean_salary :: rat

text \<open>Lines 92-93: \<open>salaries_by_departments[department].append(int(salary))\<close>.\<close>

fun collect_salaries :: "int list dict \<Rightarrow> (string \<times> string) list \<Rightarrow> error + int list dict" where
  "collect_salaries acc [] = Inr acc"
| "collect_salaries acc ((department, salary) # rest) =
     bind (dict_get acc department) (\<lambda>salaries.
     bind (py_int salary) (\<lambda>n.
       collect_salaries (dict_set acc department (salaries @ [n])) rest))"

text \<open>
  Lines 87-93: the accumulator as it stands when the second loop starts. Lines 88 and
  89 evaluate \<open>content[list(content.keys())[1]]\<close> twice, with the same result.
\<close>

definition salaries_by_departments :: "filesystem \<Rightarrow> string \<Rightarrow> error + int list dict" where
  "salaries_by_departments fs file =
     bind (get_data fs file) (\<lambda>content.
     bind (py_index (keys content) 1) (\<lambda>department_key.
     bind (dict_get content department_key) (\<lambda>departments.
     let departments_unique = sort (remdups departments) in
     bind (py_index (keys content) (- 1)) (\<lambda>salary_key.
     bind (dict_get content salary_key) (\<lambda>salaries.
     let acc = foldl (\<lambda>d key. dict_set d key []) [] departments_unique in
     collect_salaries acc (zip departments salaries))))))"

text \<open>Lines 96-101: the record of one department, from its list of salaries.\<close>

definition department_record :: "int list \<Rightarrow> error + department_report" where
  "department_record salaries =
     bind (py_min salaries) (\<lambda>lo.
     bind (py_max salaries) (\<lambda>hi.
     let n = length salaries in
     bind (py_truediv (sum_list salaries) (int n)) (\<lambda>quotient.
       Inr \<lparr>min_salary = lo, max_salary = hi, head_count = n,
            mean_salary = py_round2 quotient\<rparr>)))"

text \<open>Line 95: \<open>for department, salaries in salaries_by_departments.items()\<close>.\<close>

fun build_report ::
  "department_report dict \<Rightarrow> (string \<times> int list) list \<Rightarrow> error + department_report dict" where
  "build_report report [] = Inr report"
| "build_report report ((department, salaries) # rest) =
     bind (department_record salaries) (\<lambda>data.
       build_report (dict_set report department data) rest)"

definition get_reports :: "filesystem \<Rightarrow> string \<Rightarrow> error + department_report dict" where
  "get_reports fs file = bind (salaries_by_departments fs file) (build_report [])"

section \<open>make_report_csv\<close>

datatype cell = Text string | Integer int | Float rat

definition report_header :: "cell list" where
  "report_header =
     [Text
        [CHR 0xD0, CHR 0x94, CHR 0xD0, CHR 0xB5, CHR 0xD0, CHR 0xBF, CHR 0xD0, CHR 0xB0,
         CHR 0xD1, CHR 0x80, CHR 0xD1, CHR 0x82, CHR 0xD0, CHR 0xB0, CHR 0xD0, CHR 0xBC,
         CHR 0xD0, CHR 0xB5, CHR 0xD0, CHR 0xBD, CHR 0xD1, CHR 0x82],
      Text
        [CHR 0xD0, CHR 0x9C, CHR 0xD0, CHR 0xB8, CHR 0xD0, CHR 0xBD, CHR 0xD0, CHR 0xB8,
         CHR 0xD0, CHR 0xBC, CHR 0xD0, CHR 0xB0, CHR 0xD0, CHR 0xBB, CHR 0xD1, CHR 0x8C,
         CHR 0xD0, CHR 0xBD, CHR 0xD0, CHR 0xB0, CHR 0xD1, CHR 0x8F, CHR 0x20, CHR 0xD0,
         CHR 0xB7, CHR 0xD0, CHR 0xB0, CHR 0xD1, CHR 0x80, CHR 0xD0, CHR 0xBF, CHR 0xD0,
         CHR 0xBB, CHR 0xD0, CHR 0xB0, CHR 0xD1, CHR 0x82, CHR 0xD0, CHR 0xB0],
      Text
        [CHR 0xD0, CHR 0x9C, CHR 0xD0, CHR 0xB0, CHR 0xD0, CHR 0xBA, CHR 0xD1, CHR 0x81,
         CHR 0xD0, CHR 0xB8, CHR 0xD0, CHR 0xBC, CHR 0xD0, CHR 0xB0, CHR 0xD0, CHR 0xBB,
         CHR 0xD1, CHR 0x8C, CHR 0xD0, CHR 0xBD, CHR 0xD0, CHR 0xB0, CHR 0xD1, CHR 0x8F,
         CHR 0x20, CHR 0xD0, CHR 0xB7, CHR 0xD0, CHR 0xB0, CHR 0xD1, CHR 0x80, CHR 0xD0,
         CHR 0xBF, CHR 0xD0, CHR 0xBB, CHR 0xD0, CHR 0xB0, CHR 0xD1, CHR 0x82, CHR 0xD0,
         CHR 0xB0],
      Text
        [CHR 0xD0, CHR 0xA7, CHR 0xD0, CHR 0xB8, CHR 0xD1, CHR 0x81, CHR 0xD0, CHR 0xBB,
         CHR 0xD0, CHR 0xB5, CHR 0xD0, CHR 0xBD, CHR 0xD0, CHR 0xBD, CHR 0xD0, CHR 0xBE,
         CHR 0xD1, CHR 0x81, CHR 0xD1, CHR 0x82, CHR 0xD1, CHR 0x8C],
      Text
        [CHR 0xD0, CHR 0xA1, CHR 0xD1, CHR 0x80, CHR 0xD0, CHR 0xB5, CHR 0xD0, CHR 0xB4,
         CHR 0xD0, CHR 0xBD, CHR 0xD1, CHR 0x8F, CHR 0xD1, CHR 0x8F, CHR 0x20, CHR 0xD0,
         CHR 0xB7, CHR 0xD0, CHR 0xB0, CHR 0xD0, CHR 0xBF, CHR 0xD1, CHR 0x80, CHR 0xD0,
         CHR 0xBB, CHR 0xD0, CHR 0xB0, CHR 0xD1, CHR 0x82, CHR 0xD0, CHR 0xB0]]"

text \<open>
  The five labels are the UTF-8 bytes of the strings of lines 139-140. The function
  takes the line typed at the prompt of line 134 and returns the name of the file it
  opens for writing with the records it passes to \<open>writer.writerow\<close>, in order.
  \<open>list(data.values())\<close> lists the four fields in the order in which line 100 inserted them.
\<close>

definition make_report_csv :: "string \<Rightarrow> department_report dict \<Rightarrow> string \<times> cell list list" where
  "make_report_csv typed report =
     (let report_file_name = add_csv_suffix (strip typed)
      in (report_file_name,
          report_header #
          map (\<lambda>(department, data).
                 [Text department] @
                 [Integer (min_salary data), Integer (max_salary data),
                  Integer (int (head_count data)), Float (mean_salary data)])
              report))"

section \<open>Vocabulary of the properties\<close>

text \<open>The invariant of a table with \<open>n\<close> data records: every column has \<open>n\<close> cells.\<close>

definition table_invariant :: "table \<Rightarrow> nat \<Rightarrow> bool" where
  "table_invariant content n = list_all (\<lambda>column. length column = n) (map snd content)"

text \<open>The cells that one record contributes to the column named \<open>k\<close>.\<close>

definition cells :: "(nat \<times> string) list \<Rightarrow> string list \<Rightarrow> string \<Rightarrow> string list" where
  "cells its row k = map (\<lambda>it. row ! fst it) (filter (\<lambda>it. snd it = k) its)"

text \<open>
  The parsed salaries of the rows of department \<open>d\<close>, in row order; used where every
  salary cell parses.
\<close>

definition department_salaries :: "string \<Rightarrow> string list \<Rightarrow> string list \<Rightarrow> int list" where
  "department_salaries d departments salaries =
     map (\<lambda>p. projr (py_int (snd p))) (filter (\<lambda>p. fst p = d) (zip departments salaries))"

text \<open>
  The quotient \<open>sum(salaries) / head_count\<close> is within the range of a float; otherwise
  the division raises \<open>OverflowError\<close>.
\<close>

definition mean_in_range :: "int list \<Rightarrow> bool" where
  "mean_in_range xs =
     (\<bar>to_double (of_int (sum_list xs) / of_int (int (length xs)))\<bar> < 2 powi 1024)"

text \<open>The record of a department with the non-empty salary list \<open>xs\<close>.\<close>

definition summary :: "int list \<Rightarrow> department_report" where
  "summary xs =
     \<lparr>min_salary = Min (set xs), max_salary = Max (set xs), head_count = length xs,
      mean_salary = py_round2 (to_double (of_int (sum_list xs) / of_int (int (length xs))))\<rparr>"

text \<open>
  Rounding to two decimal places as the specification words it, half-to-even or half-up,
  on exact numbers; to be compared with \<open>py_round2\<close> after \<open>py_truediv\<close>.
\<close>

definition round_half_even :: "rat \<Rightarrow> rat" where
  "round_half_even q = of_int (rne (q * 100)) / 100"

definition round_half_up :: "rat \<Rightarrow> rat" where
  "round_half_up q = of_int \<lfloor>q * 100 + 1 / 2\<rfloor> / 100"

subsection \<open>Example files\<close>



definition staff_fs :: filesystem where
  "staff_fs path =
     (if path = ''staff.csv''
      then Records [[''id'', ''dept'', ''team'', ''salary''],
                 [''1'', ''A'', ''X'', ''100''],
                 [''2'', ''A'', ''Y'', ''300''],
                 [''3'', ''B'', ''Z'', ''200'']]
      else NoFile)"

definition dup_fs :: filesystem where
  "dup_fs path =
     (if path = ''dup.csv''
      then Records [[''id'', ''x'', ''x''], [''1'', ''2'', ''3'']]
      else NoFile)"

definition big_fs :: filesystem where
  "big_fs path =
     (if path = ''big.csv''
      then Records [[''id'', ''dept'', ''salary''], [''1'', ''A'', ''9007199254740993'']]
      else NoFile)"

definition bad_fs :: filesystem where
  "bad_fs path =
     (if path = ''bad.csv''
      then Records [[''id'', ''dept'', ''salary''], [''1'', ''A'', ''100''], [''2'', ''B'', ''abc'']]
      else NoFile)"

text \<open>A salary of \<open>10 ^ 309\<close>, written out in decimal digits.\<close>

definition huge_salary :: string where
  "huge_salary = CHR ''1'' # replicate 309 CHR ''0''"

definition huge_fs :: filesystem where
  "huge_fs path =
     (if path = ''huge.csv''
      then Records [[''id'', ''dept'', ''salary''], [''1'', ''A'', huge_salary]]
      else NoFile)"



text \<open>A header that names the last column twice, and one record.\<close>

definition ragged_fs :: filesystem where
  "ragged_fs path =
     (if path = ''ragged.csv''
      then Records [[''id'', ''dept'', ''s'', ''s''], [''1'', ''A'', ''5'', ''abc'']]
      else NoFile)"

text \<open>Forty rows of one department whose salaries add up to 107.\<close>

definition tie_fs :: filesystem where
  "tie_fs path =
     (if path = ''tie.csv''
      then Records ([''id'', ''dept'', ''salary''] #
                    replicate 39 [''1'', ''A'', ''1''] @ [[''2'', ''A'', ''68'']])
      else NoFile)"

section \<open>Verification\<close>


subsection \<open>Dictionaries and the keys of a loaded table\<close>

lemma keys_dict_set:
  "keys (dict_set d k v) = (if k \<in> set (keys d) then keys d else keys d @ [k])"
  by (induction d) (force simp: keys_def)+

lemma map_of_dict_set: "map_of (dict_set d k v) = (map_of d)(k \<mapsto> v)"
  by (induction d) (auto simp: fun_eq_iff)

lemma map_of_keys: "map_of d k = None \<longleftrightarrow> k \<notin> set (keys d)"
  by (simp add: keys_def map_of_eq_None_iff)

lemma dict_set_new: "k \<notin> set (keys d) \<Longrightarrow> dict_set d k v = d @ [(k, v)]"
  by (induction d) (auto simp: keys_def)

lemma dict_get_Inr: "dict_get d k = Inr v \<longleftrightarrow> map_of d k = Some v"
  by (simp add: dict_get_def split: option.splits)

lemma dict_get_key: "k \<in> set (keys d) \<Longrightarrow> \<exists>v. dict_get d k = Inr v"
  using map_of_keys[of d k] by (auto simp: dict_get_def split: option.splits)

lemma dict_get_nth:
  assumes "distinct (keys d)" "i < length d"
  shows "dict_get d (keys d ! i) = Inr (snd (d ! i))"
proof -
  have "map_of d (fst (d ! i)) = Some (snd (d ! i))"
    using assms by (intro map_of_is_SomeI) (auto simp: keys_def)
  then show ?thesis using assms(2) by (simp add: dict_get_def keys_def)
qed

lemma bind_Inr: "bind m f = Inr y \<longleftrightarrow> (\<exists>x. m = Inr x \<and> f x = Inr y)"
  by (cases m) (simp_all add: bind_def)


lemma bind_simps: "bind (Inr x) f = f x" "bind (Inl e) f = Inl e"
  by (simp_all add: bind_def)

text \<open>A dict comprehension with a constant value.\<close>

lemma keys_comprehension:
  "keys (foldl (\<lambda>d key. dict_set d key v) [] ks) = rev (remdups (rev ks))"
proof (induction ks rule: rev_induct)
  case Nil
  then show ?case by (simp add: keys_def)
next
  case (snoc k ks)
  have "set (keys (foldl (\<lambda>d key. dict_set d key v) [] ks)) = set ks" using snoc by simp
  then show ?case using snoc by (simp add: keys_dict_set)
qed

lemma map_of_comprehension:
  "map_of (foldl (\<lambda>d key. dict_set d key v) [] ks) k = (if k \<in> set ks then Some v else None)"
  by (induction ks rule: rev_induct) (auto simp: map_of_dict_set)

lemma keep_first_distinct: "distinct ks \<Longrightarrow> rev (remdups (rev ks)) = ks"
  by (simp add: distinct_remdups_id)

lemma append_row_keys: "append_row content its row = Inr content' \<Longrightarrow> keys content' = keys content"
proof (induction content its row arbitrary: content' rule: append_row.induct)
  case (1 content row)
  then show ?case by simp
next
  case (2 content i tag rest row)
  from "2.prems" obtain column where c: "dict_get content tag = Inr column"
    and i: "i < length row"
    and r: "append_row (dict_set content tag (column @ [row ! i])) rest row = Inr content'"
    by (auto simp: bind_Inr split: if_splits)
  from c have "tag \<in> set (keys content)" using map_of_keys[of content tag] by (auto simp: dict_get_Inr)
  then show ?case using "2.IH"[OF i r] by (simp add: keys_dict_set)
qed

lemma read_rows_keys: "read_rows content tags rows = Inr content' \<Longrightarrow> keys content' = keys content"
proof (induction rows arbitrary: content)
  case Nil
  then show ?case by simp
next
  case (Cons row rows)
  then show ?case by (auto simp: bind_Inr dest: append_row_keys)
qed

lemma get_data_distinct_keys:
  assumes "get_data fs file = Inr content"
  shows "distinct (keys content)"
proof -
  from assms obtain tags rows where "read_rows (empty_columns tags) tags rows = Inr content"
    by (auto simp: get_data_def Let_def split: entry.splits list.splits)
  then have "keys content = keys (empty_columns tags)" by (rule read_rows_keys)
  then show ?thesis by (simp add: empty_columns_def keys_comprehension)
qed


subsection \<open>Rounding\<close>

lemma rne_of_int: "rne (of_int k) = k"
  by (simp add: rne_def)

lemma rne_le: assumes "x \<le> of_int k" shows "rne x \<le> k"
proof (cases "x = of_int k")
  case True then show ?thesis by (simp add: rne_of_int)
next
  case False
  with assms have "x < of_int k" by simp
  then have "\<lfloor>x\<rfloor> < k" by (simp add: floor_less_iff)
  then show ?thesis by (simp add: rne_def Let_def)
qed

lemma rne_ge: assumes "of_int k \<le> x" shows "k \<le> rne x"
proof -
  from assms have "k \<le> \<lfloor>x\<rfloor>" by (simp add: le_floor_iff)
  then show ?thesis by (simp add: rne_def Let_def)
qed

lemma pow2_pos: "(0::rat) < 2 powi e"
  by (simp add: zero_less_power_int)

lemma pow2_mono: "a \<le> b \<Longrightarrow> (2::rat) powi a \<le> 2 powi b"
  by (simp add: power_int_increasing)

lemma pow2_less_cancel: "(2::rat) powi a < 2 powi b \<Longrightarrow> a < b"
  using pow2_mono[of b a] by (cases "a < b") auto

lemma ilog2_bounds:
  assumes "0 < q"
  shows "2 powi (ilog2 q) \<le> q \<and> q < 2 powi (ilog2 q + 1)"
proof -
  obtain a b where ab: "quotient_of q = (a, b)" by (cases "quotient_of q")
  have b: "0 < b" using quotient_of_denom_pos[OF ab] .
  have q: "q = of_int a / of_int b" using quotient_of_div[OF ab] .
  have a: "0 < a" using assms b q by (simp add: zero_less_divide_iff)
  define la lb where "la = bitlen a" and "lb = bitlen b"
  have la1: "1 \<le> la" and lb1: "1 \<le> lb" using a b by (auto simp: la_def lb_def bitlen_alt_def)
  from bitlen_bounds[OF a] have alo: "(2::int) ^ nat (la - 1) \<le> a" and ahi: "a < 2 ^ nat la"
    by (simp_all add: la_def)
  from bitlen_bounds[OF b] have blo: "(2::int) ^ nat (lb - 1) \<le> b" and bhi: "b < 2 ^ nat lb"
    by (simp_all add: lb_def)
  have alo': "(2::rat) powi (la - 1) \<le> of_int a"
  proof -
    have "(of_int ((2::int) ^ nat (la - 1)) :: rat) \<le> of_int a" using alo by (simp only: of_int_le_iff)
    moreover have "(2::rat) powi (la - 1) = 2 ^ nat (la - 1)" using la1 by (simp add: power_int_def)
    ultimately show ?thesis by simp
  qed
  have ahi': "of_int a < (2::rat) powi la"
  proof -
    have "(of_int a :: rat) < of_int ((2::int) ^ nat la)" using ahi by (simp only: of_int_less_iff)
    moreover have "(2::rat) powi la = 2 ^ nat la" using la1 by (simp add: power_int_def)
    ultimately show ?thesis by simp
  qed
  have blo': "(2::rat) powi (lb - 1) \<le> of_int b"
  proof -
    have "(of_int ((2::int) ^ nat (lb - 1)) :: rat) \<le> of_int b" using blo by (simp only: of_int_le_iff)
    moreover have "(2::rat) powi (lb - 1) = 2 ^ nat (lb - 1)" using lb1 by (simp add: power_int_def)
    ultimately show ?thesis by simp
  qed
  have bhi': "of_int b < (2::rat) powi lb"
  proof -
    have "(of_int b :: rat) < of_int ((2::int) ^ nat lb)" using bhi by (simp only: of_int_less_iff)
    moreover have "(2::rat) powi lb = 2 ^ nat lb" using lb1 by (simp add: power_int_def)
    ultimately show ?thesis by simp
  qed
  have bq: "(0::rat) < of_int b" using b by simp
  define d where "d = la - lb"
  have lower: "(2::rat) powi (d - 1) \<le> q"
  proof -
    have "(2::rat) powi (d - 1) * of_int b \<le> 2 powi (d - 1) * 2 powi lb"
      using bhi' pow2_pos[of "d - 1"] by (simp add: less_imp_le)
    also have "\<dots> = 2 powi (la - 1)" by (simp add: d_def power_int_add[symmetric])
    also have "\<dots> \<le> of_int a" by (rule alo')
    finally show ?thesis using bq by (simp add: q pos_le_divide_eq)
  qed
  have upper: "q < (2::rat) powi (d + 1)"
  proof -
    have "of_int a < (2::rat) powi la" by (rule ahi')
    also have "\<dots> = 2 powi (d + 1) * 2 powi (lb - 1)" by (simp add: d_def power_int_add[symmetric])
    also have "\<dots> \<le> 2 powi (d + 1) * of_int b"
      using blo' pow2_pos[of "d + 1"] by simp
    finally show ?thesis using bq by (simp add: q pos_divide_less_eq)
  qed
  have il: "ilog2 q = (if 2 powi d \<le> q then d else d - 1)"
    by (simp add: ilog2_def ab d_def la_def lb_def Let_def)
  show ?thesis
  proof (cases "2 powi d \<le> q")
    case True then show ?thesis using upper il by simp
  next
    case False then show ?thesis using lower il by simp
  qed
qed

lemma ilog2_unique:
  assumes "2 powi e \<le> q" "q < 2 powi (e + 1)"
  shows "ilog2 q = e"
proof -
  have q: "0 < q" using assms(1) pow2_pos[of e] by linarith
  from ilog2_bounds[OF q] have lo: "2 powi (ilog2 q) \<le> q" and hi: "q < 2 powi (ilog2 q + 1)" by auto
  have "(2::rat) powi (ilog2 q) < 2 powi (e + 1)" using lo assms(2) by simp
  then have 1: "ilog2 q < e + 1" by (rule pow2_less_cancel)
  have "(2::rat) powi e < 2 powi (ilog2 q + 1)" using hi assms(1) by simp
  then have 2: "e < ilog2 q + 1" by (rule pow2_less_cancel)
  from 1 2 show ?thesis by simp
qed

lemma ilog2_le:
  assumes "0 < q" "q < 2 powi k"
  shows "ilog2 q < k"
proof -
  from ilog2_bounds[OF assms(1)] have "2 powi (ilog2 q) \<le> q" by simp
  with assms(2) have "(2::rat) powi (ilog2 q) < 2 powi k" by simp
  then show ?thesis by (rule pow2_less_cancel)
qed

lemma ilog2_ge:
  assumes "2 powi k \<le> q"
  shows "k \<le> ilog2 q"
proof -
  have q: "0 < q" using assms pow2_pos[of k] by linarith
  from ilog2_bounds[OF q] have "q < 2 powi (ilog2 q + 1)" by simp
  with assms have "(2::rat) powi k < 2 powi (ilog2 q + 1)" by simp
  then have "k < ilog2 q + 1" by (rule pow2_less_cancel)
  then show ?thesis by simp
qed

text \<open>Rounding to a grid of spacing u keeps every bound that lies on the grid.\<close>

lemma grid_le:
  assumes u: "(0::rat) < u" and y: "y = of_int m * u" and "x \<le> y"
  shows "of_int (rne (x / u)) * u \<le> y"
proof -
  have "x / u \<le> of_int m" using assms by (simp add: pos_divide_le_eq)
  then have "rne (x / u) \<le> m" by (rule rne_le)
  then have "(of_int (rne (x / u)) :: rat) \<le> of_int m" by simp
  then show ?thesis using u y by simp
qed

lemma grid_ge:
  assumes u: "(0::rat) < u" and y: "y = of_int m * u" and "y \<le> x"
  shows "y \<le> of_int (rne (x / u)) * u"
proof -
  have "of_int m \<le> x / u" using assms by (simp add: pos_le_divide_eq)
  then have "m \<le> rne (x / u)" by (rule rne_ge)
  then have "(of_int m :: rat) \<le> of_int (rne (x / u))" by simp
  then show ?thesis using u y by simp
qed

lemma to_double_unfold:
  "x \<noteq> 0 \<Longrightarrow> to_double x =
     of_int (rne (x / 2 powi (max (ilog2 \<bar>x\<bar>) (- 1022) - 52))) * 2 powi (max (ilog2 \<bar>x\<bar>) (- 1022) - 52)"
  by (simp add: to_double_def Let_def)

text \<open>An integer is a multiple of the spacing used for an x below 2^53 in magnitude.\<close>

lemma int_on_grid:
  assumes "e \<le> 52"
  shows "\<exists>m. (of_int c :: rat) = of_int m * 2 powi (e - 52)"
proof -
  have "(2::rat) powi (e - 52) * 2 powi (52 - e) = 1"
    by (simp add: power_int_add[symmetric])
  moreover have "(2::rat) powi (52 - e) = of_int (2 ^ nat (52 - e))"
    using assms by (simp add: power_int_def)
  ultimately have "(of_int c :: rat) = of_int (c * 2 ^ nat (52 - e)) * 2 powi (e - 52)"
    by (simp add: mult.assoc mult.commute)
  then show ?thesis by blast
qed

lemma to_double_int_bounds:
  assumes small: "\<bar>x\<bar> \<le> 2 ^ 53"
  shows "(x \<le> of_int c \<longrightarrow> to_double x \<le> of_int c) \<and> (of_int c \<le> x \<longrightarrow> of_int c \<le> to_double x)"
proof (cases "x = 0")
  case True
  then show ?thesis by (simp add: to_double_def)
next
  case False
  define e where "e = max (ilog2 \<bar>x\<bar>) (- 1022)"
  define u :: rat where "u = 2 powi (e - 52)"
  have td: "to_double x = of_int (rne (x / u)) * u"
    using False by (simp add: to_double_unfold e_def u_def)
  have u: "0 < u" by (simp add: u_def pow2_pos)
  have ax: "0 < \<bar>x\<bar>" using False by simp
  show ?thesis
  proof (cases "\<bar>x\<bar> = 2 ^ 53")
    case True
    have "(2::rat) powi 53 \<le> \<bar>x\<bar>" "\<bar>x\<bar> < 2 powi (53 + 1)" using True by simp_all
    then have "ilog2 \<bar>x\<bar> = 53" by (rule ilog2_unique)
    then have "u = 2" by (simp add: u_def e_def)
    moreover have "x = 2 ^ 53 \<or> x = - (2 ^ 53)" using True by linarith
    ultimately have "to_double x = x" using td by (auto simp: rne_def)
    then show ?thesis by simp
  next
    case False
    with small have "\<bar>x\<bar> < 2 powi 53" by simp
    with ax have "ilog2 \<bar>x\<bar> < 53" by (rule ilog2_le)
    then have "e \<le> 52" by (simp add: e_def)
    from int_on_grid[OF this, of c] obtain m where m: "(of_int c :: rat) = of_int m * u"
      by (auto simp: u_def)
    show ?thesis using grid_le[OF u m] grid_ge[OF u m] td by simp
  qed
qed

lemma round2_int_bounds:
  "(x \<le> of_int c \<longrightarrow> of_int (rne (x * 100)) / 100 \<le> (of_int c :: rat)) \<and>
   (of_int c \<le> x \<longrightarrow> (of_int c :: rat) \<le> of_int (rne (x * 100)) / 100)"
proof -
  have u: "(0::rat) < 1 / 100" by simp
  have m: "(of_int c :: rat) = of_int (c * 100) * (1 / 100)" by simp
  show ?thesis using grid_le[OF u m, of x] grid_ge[OF u m, of x] by simp
qed

lemma mean_between:
  assumes "of_int lo \<le> q" "q \<le> of_int hi" "\<bar>lo\<bar> \<le> 2 ^ 53" "\<bar>hi\<bar> \<le> 2 ^ 53"
  shows "of_int lo \<le> py_round2 (to_double q) \<and> py_round2 (to_double q) \<le> of_int hi \<and>
         \<bar>to_double q\<bar> < 2 powi 1024"
proof -
  have small: "\<bar>y\<bar> \<le> 2 ^ 53" if "of_int lo \<le> y" "y \<le> of_int hi" for y :: rat
  proof -
    have "(of_int \<bar>lo\<bar> :: rat) \<le> of_int (2 ^ 53)" "(of_int \<bar>hi\<bar> :: rat) \<le> of_int (2 ^ 53)"
      using assms(3,4) by (simp_all only: of_int_le_iff)
    then have "\<bar>of_int lo :: rat\<bar> \<le> 2 ^ 53" "\<bar>of_int hi :: rat\<bar> \<le> 2 ^ 53" by simp_all
    with that show ?thesis by linarith
  qed
  have q: "\<bar>q\<bar> \<le> 2 ^ 53" using assms(1,2) by (rule small)
  have d1: "of_int lo \<le> to_double q" "to_double q \<le> of_int hi"
    using to_double_int_bounds[OF q, of lo] to_double_int_bounds[OF q, of hi] assms(1,2) by simp_all
  define r where "r = of_int (rne (to_double q * 100)) / (100::rat)"
  have r1: "of_int lo \<le> r" "r \<le> of_int hi"
    using round2_int_bounds[of "to_double q" lo] round2_int_bounds[of "to_double q" hi] d1
    by (simp_all add: r_def)
  have r: "\<bar>r\<bar> \<le> 2 ^ 53" using r1 by (rule small)
  have d2: "of_int lo \<le> to_double r" "to_double r \<le> of_int hi"
    using to_double_int_bounds[OF r, of lo] to_double_int_bounds[OF r, of hi] r1 by simp_all
  have "\<bar>to_double q\<bar> \<le> 2 ^ 53" using d1 by (rule small)
  also have "\<dots> < (2::rat) powi 1024" by simp
  finally show ?thesis using d2 by (simp add: py_round2_def r_def)
qed

lemma to_double_of_int:
  assumes "\<bar>c\<bar> \<le> 2 ^ 53"
  shows "to_double (of_int c) = of_int c"
proof -
  have "(of_int \<bar>c\<bar> :: rat) \<le> of_int (2 ^ 53)" using assms by (simp only: of_int_le_iff)
  then have "\<bar>of_int c :: rat\<bar> \<le> 2 ^ 53" by simp
  from to_double_int_bounds[OF this, of c] show ?thesis by simp
qed

lemma py_round2_of_int:
  assumes "\<bar>c\<bar> \<le> 2 ^ 53"
  shows "py_round2 (of_int c) = of_int c"
proof -
  have "rne (of_int c * 100) = c * 100" using rne_of_int[of "c * 100"] by simp
  then show ?thesis using to_double_of_int[OF assms] by (simp add: py_round2_def)
qed

text \<open>The value of to_double once the binary exponent of the argument is known.\<close>

lemma to_double_eval:
  assumes "2 powi e \<le> \<bar>x\<bar>" "\<bar>x\<bar> < 2 powi (e + 1)" "- 1022 \<le> e"
  shows "to_double x = of_int (rne (x / 2 powi (e - 52))) * 2 powi (e - 52)"
proof -
  have "ilog2 \<bar>x\<bar> = e" using assms(1,2) by (rule ilog2_unique)
  moreover have "x \<noteq> 0" using assms(1) pow2_pos[of e] by (cases "x = 0") simp_all
  ultimately show ?thesis using assms(3) by (simp add: to_double_unfold)
qed

text \<open>Rounding never takes a number below the power of two under it.\<close>

lemma to_double_ge_pow:
  assumes "2 powi k \<le> \<bar>x\<bar>" "- 1022 \<le> k"
  shows "2 powi k \<le> \<bar>to_double x\<bar>"
proof -
  have x0: "x \<noteq> 0" using assms(1) pow2_pos[of k] by (cases "x = 0") simp_all
  define e where "e = ilog2 \<bar>x\<bar>"
  define u :: rat where "u = 2 powi (e - 52)"
  have ke: "k \<le> e" using assms(1) by (simp add: e_def ilog2_ge)
  then have "max e (- 1022) = e" using assms(2) by simp
  then have td: "to_double x = of_int (rne (x / u)) * u"
    using x0 by (simp add: to_double_unfold e_def u_def)
  have u: "0 < u" by (simp add: u_def pow2_pos)
  have p: "(2::rat) powi e = of_int (2 ^ 52) * u"
  proof -
    have "(2::rat) powi (52 + (e - 52)) = 2 powi 52 * 2 powi (e - 52)"
      by (rule power_int_add) simp
    moreover have "52 + (e - 52) = e" by simp
    ultimately have "(2::rat) powi e = 2 powi 52 * 2 powi (e - 52)" by (simp only:)
    then show ?thesis by (simp add: u_def)
  qed
  have lo: "2 powi e \<le> \<bar>x\<bar>" using ilog2_bounds[of "\<bar>x\<bar>"] x0 by (simp add: e_def)
  have ke': "(2::rat) powi k \<le> 2 powi e" using ke by (rule pow2_mono)
  show ?thesis
  proof (cases "0 < x")
    case True
    then have "2 powi e \<le> x" using lo by simp
    from grid_ge[OF u p this] have "2 powi e \<le> to_double x" by (simp add: td)
    then show ?thesis using ke' by linarith
  next
    case False
    then have "x \<le> - (2 powi e)" using lo x0 by simp
    moreover have "- ((2::rat) powi e) = of_int (- (2 ^ 52)) * u" using p by simp
    ultimately have "to_double x \<le> - (2 powi e)" using grid_le[OF u, of "- (2 powi e)" "- (2 ^ 52)" x]
      by (simp add: td)
    then show ?thesis using ke' by linarith
  qed
qed

lemma py_truediv_overflow:
  assumes "b \<noteq> 0" "2 powi 1024 \<le> \<bar>of_int a / of_int b :: rat\<bar>"
  shows "py_truediv a b = Inl OverflowError"
  using assms to_double_ge_pow[OF assms(2)] by (simp add: py_truediv_def Let_def)

lemma sum_list_lower: "\<forall>x\<in>set xs. m \<le> x \<Longrightarrow> m * int (length xs) \<le> sum_list xs"
  by (induction xs) (auto simp: algebra_simps)

lemma sum_list_upper: "\<forall>x\<in>set xs. x \<le> m \<Longrightarrow> sum_list xs \<le> m * int (length xs)"
  by (induction xs) (auto simp: algebra_simps)

lemma mean_between_min_max:
  assumes "xs \<noteq> []"
  shows "(of_int (Min (set xs)) :: rat) \<le> of_int (sum_list xs) / of_int (int (length xs))"
    and "(of_int (sum_list xs) / of_int (int (length xs)) :: rat) \<le> of_int (Max (set xs))"
proof -
  have n: "(0::rat) < of_int (int (length xs))" using assms by simp
  have "Min (set xs) * int (length xs) \<le> sum_list xs"
    by (rule sum_list_lower) simp
  then have "(of_int (Min (set xs) * int (length xs)) :: rat) \<le> of_int (sum_list xs)"
    by (simp only: of_int_le_iff)
  then show "(of_int (Min (set xs)) :: rat) \<le> of_int (sum_list xs) / of_int (int (length xs))"
    using n by (simp add: pos_le_divide_eq)
  have "sum_list xs \<le> Max (set xs) * int (length xs)"
    by (rule sum_list_upper) simp
  then have "(of_int (sum_list xs) :: rat) \<le> of_int (Max (set xs) * int (length xs))"
    by (simp only: of_int_le_iff)
  then show "(of_int (sum_list xs) / of_int (int (length xs)) :: rat) \<le> of_int (Max (set xs))"
    using n by (simp add: pos_divide_le_eq)
qed


subsection \<open>What the loader returns\<close>

lemma append_row_ok:
  assumes "\<forall>it\<in>set its. fst it < length row \<and> snd it \<in> set (keys content)"
  shows "\<exists>content'. append_row content its row = Inr content' \<and>
           (\<forall>k. map_of content' k = map_option (\<lambda>col. col @ cells its row k) (map_of content k))"
  using assms
proof (induction its arbitrary: content)
  case Nil
  then show ?case by (simp add: cells_def option.map_ident)
next
  case (Cons it its)
  obtain i tag where it: "it = (i, tag)" by (cases it)
  from Cons.prems it have i: "i < length row" and tag: "tag \<in> set (keys content)" by auto
  from tag obtain column where col: "map_of content tag = Some column"
    using map_of_keys[of content tag] by auto
  let ?c = "dict_set content tag (column @ [row ! i])"
  have k: "keys ?c = keys content" using tag by (simp add: keys_dict_set)
  from Cons.prems k have "\<forall>it\<in>set its. fst it < length row \<and> snd it \<in> set (keys ?c)" by simp
  from Cons.IH[OF this] obtain content' where
    r: "append_row ?c its row = Inr content'"
    and m: "\<forall>k. map_of content' k = map_option (\<lambda>col. col @ cells its row k) (map_of ?c k)"
    by blast
  have "append_row content (it # its) row = Inr content'"
    using it i col r by (simp add: bind_def dict_get_def)
  moreover have "map_of content' k = map_option (\<lambda>col. col @ cells (it # its) row k) (map_of content k)" for k
    using m col it by (cases "map_of content k") (auto simp: map_of_dict_set cells_def)
  ultimately show ?case by auto
qed

lemma read_rows_ok:
  assumes "\<forall>row\<in>set rows. length tags \<le> length row" "set tags \<subseteq> set (keys content)"
  shows "\<exists>content'. read_rows content tags rows = Inr content' \<and>
           (\<forall>k. map_of content' k =
              map_option (\<lambda>col. col @ concat (map (\<lambda>row. cells (enumerate 0 tags) row k) rows))
                (map_of content k))"
  using assms
proof (induction rows arbitrary: content)
  case Nil
  then show ?case by (simp add: option.map_ident)
next
  case (Cons row rows)
  have "\<forall>it\<in>set (enumerate 0 tags). fst it < length row \<and> snd it \<in> set (keys content)"
    using Cons.prems by (auto simp: in_set_enumerate_eq)
  from append_row_ok[OF this] obtain c1 where
    a: "append_row content (enumerate 0 tags) row = Inr c1"
    and m1: "\<forall>k. map_of c1 k = map_option (\<lambda>col. col @ cells (enumerate 0 tags) row k) (map_of content k)"
    by blast
  have k1: "keys c1 = keys content" using a by (rule append_row_keys)
  from Cons.prems k1 have "\<forall>row\<in>set rows. length tags \<le> length row" "set tags \<subseteq> set (keys c1)" by auto
  from Cons.IH[OF this] obtain c2 where
    r: "read_rows c1 tags rows = Inr c2"
    and m2: "\<forall>k. map_of c2 k =
              map_option (\<lambda>col. col @ concat (map (\<lambda>row. cells (enumerate 0 tags) row k) rows))
                (map_of c1 k)"
    by blast
  have "read_rows content tags (row # rows) = Inr c2" using a r by (simp add: bind_def)
  moreover have "map_of c2 k =
              map_option (\<lambda>col. col @ concat (map (\<lambda>row. cells (enumerate 0 tags) row k) (row # rows)))
                (map_of content k)" for k
    using m1 m2 by (cases "map_of content k") auto
  ultimately show ?case by auto
qed

lemma cells_enumerate:
  "cells (enumerate 0 tags) row k = map (\<lambda>i. row ! i) (filter (\<lambda>i. tags ! i = k) [0..<length tags])"
proof (induction tags rule: rev_induct)
  case Nil
  then show ?case by (simp add: cells_def)
next
  case (snoc t tags)
  have f: "filter (\<lambda>i. (tags @ [t]) ! i = k) [0..<length tags] = filter (\<lambda>i. tags ! i = k) [0..<length tags]"
    by (rule filter_cong) (auto simp: nth_append)
  have "cells (enumerate 0 (tags @ [t])) row k =
        cells (enumerate 0 tags) row k @ (if t = k then [row ! length tags] else [])"
    by (simp add: cells_def enumerate_append_eq)
  then show ?case using snoc f by simp
qed

lemma get_data_loaded:
  assumes f: "fs (add_csv_suffix name) = Records (tags # rows)"
    and r: "\<forall>row\<in>set rows. length tags \<le> length row"
  shows "\<exists>content. get_data fs name = Inr content \<and> keys content = rev (remdups (rev tags)) \<and>
           (\<forall>k\<in>set tags. map_of content k =
              Some (concat (map (\<lambda>row. map (\<lambda>i. row ! i) (filter (\<lambda>i. tags ! i = k) [0..<length tags])) rows)))"
proof -
  have k0: "keys (empty_columns tags) = rev (remdups (rev tags))"
    by (simp add: empty_columns_def keys_comprehension)
  then have "set tags \<subseteq> set (keys (empty_columns tags))" by simp
  from read_rows_ok[OF r this] obtain content where
    rr: "read_rows (empty_columns tags) tags rows = Inr content"
    and m: "\<forall>k. map_of content k =
              map_option (\<lambda>col. col @ concat (map (\<lambda>row. cells (enumerate 0 tags) row k) rows))
                (map_of (empty_columns tags) k)"
    by blast
  have g: "get_data fs name = Inr content"
    using f rr by (auto simp: get_data_def Let_def)
  have "keys content = rev (remdups (rev tags))" using read_rows_keys[OF rr] k0 by simp
  moreover have "map_of content k =
      Some (concat (map (\<lambda>row. map (\<lambda>i. row ! i) (filter (\<lambda>i. tags ! i = k) [0..<length tags])) rows))"
    if "k \<in> set tags" for k
    using m that by (simp add: empty_columns_def map_of_comprehension cells_enumerate)
  ultimately show ?thesis using g by blast
qed

lemma filter_index_distinct:
  assumes "distinct tags" "i < length tags"
  shows "filter (\<lambda>j. tags ! j = tags ! i) [0..<length tags] = [i]"
proof -
  have "filter (\<lambda>j. tags ! j = tags ! i) [0..<length tags] = filter (\<lambda>j. j = i) [0..<length tags]"
    using assms by (intro filter_cong) (auto simp: nth_eq_iff_index_eq)
  also have "\<dots> = [i]" using assms(2)
    by (induction tags rule: rev_induct) (auto simp: less_Suc_eq)
  finally show ?thesis .
qed





subsection \<open>Claims about the loader\<close>




text \<open>
  C4, amended. For a file whose header names are pairwise distinct and whose records each
  supply a value for every header position, \<open>get_data\<close> returns a table whose keys are
  the header names in header order, whose \<open>i\<close>-th column lists the \<open>i\<close>-th cell of every
  record in record order, and in which every column has as many cells as there are data
  records.
\<close>

theorem get_data_table_invariant:
  assumes "fs (add_csv_suffix name) = Records (tags # rows)"
    and "distinct tags"
    and "\<forall>row\<in>set rows. length tags \<le> length row"
  shows "\<exists>content. get_data fs name = Inr content \<and> keys content = tags \<and>
           (\<forall>i<length tags. snd (content ! i) = map (\<lambda>row. row ! i) rows) \<and>
           table_invariant content (length rows)"
proof -
  from get_data_loaded[of fs name tags rows, OF assms(1,3)] obtain content where
    g: "get_data fs name = Inr content" and k: "keys content = rev (remdups (rev tags))"
    and m: "\<forall>k\<in>set tags. map_of content k =
              Some (concat (map (\<lambda>row. map (\<lambda>i. row ! i) (filter (\<lambda>i. tags ! i = k) [0..<length tags])) rows))"
    by blast
  have k': "keys content = tags" using k assms(2) by (simp add: keep_first_distinct)
  have len: "length content = length tags" using k' by (simp add: keys_def[symmetric] flip: length_map[of fst content])
  have col: "snd (content ! i) = map (\<lambda>row. row ! i) rows" if i: "i < length tags" for i
  proof -
    have "dict_get content (keys content ! i) = Inr (snd (content ! i))"
      using k' assms(2) i len by (intro dict_get_nth) simp_all
    then have "map_of content (tags ! i) = Some (snd (content ! i))"
      by (simp add: k' dict_get_Inr)
    moreover have "map_of content (tags ! i) = Some (concat (map (\<lambda>row. [row ! i]) rows))"
      using m i assms(2) by (simp add: filter_index_distinct)
    moreover have "concat (map (\<lambda>row. [row ! i]) rows) = map (\<lambda>row. row ! i) rows"
      by (induction rows) simp_all
    ultimately show ?thesis by simp
  qed
  have "table_invariant content (length rows)"
    unfolding table_invariant_def list_all_length
    using col len by simp
  then show ?thesis using g k' col by blast
qed

theorem get_data_table_invariant_witness:
  "\<exists>content. get_data staff_fs ''staff'' = Inr content \<and>
     keys content = [''id'', ''dept'', ''team'', ''salary''] \<and>
     snd (content ! 1) = [''A'', ''A'', ''B''] \<and> snd (content ! 3) = [''100'', ''300'', ''200''] \<and>
     table_invariant content 3"
proof -
  let ?tags = "[''id'', ''dept'', ''team'', ''salary'']"
  let ?rows = "[[''1'', ''A'', ''X'', ''100''], [''2'', ''A'', ''Y'', ''300''],
                [''3'', ''B'', ''Z'', ''200'']]"
  have f: "staff_fs (add_csv_suffix ''staff'') = Records (?tags # ?rows)"
    by (simp add: staff_fs_def add_csv_suffix_def endswith_def)
  have d: "distinct ?tags" by simp
  have r: "\<forall>row\<in>set ?rows. length ?tags \<le> length row" by simp
  from get_data_table_invariant[of staff_fs "''staff''" ?tags ?rows, OF f d r]
  obtain content where g: "get_data staff_fs ''staff'' = Inr content"
    and k: "keys content = ?tags"
    and c: "\<forall>i<length ?tags. snd (content ! i) = map (\<lambda>row. row ! i) ?rows"
    and t: "table_invariant content (length ?rows)"
    by blast
  have "snd (content ! 1) = [''A'', ''A'', ''B'']" using c[rule_format, of 1] by simp
  moreover have "snd (content ! 3) = [''100'', ''300'', ''200'']" using c[rule_format, of 3] by simp
  moreover have "table_invariant content 3" using t by (simp add: numeral_3_eq_3)
  ultimately show ?thesis using g k by simp
qed

text \<open>
  With the header \<open>id;x;x\<close> and the record \<open>1;2;3\<close> the column \<open>x\<close> gets two cells
  and the column \<open>id\<close> one, although the record supplies a value for every position.
\<close>

theorem get_data_table_invariant_counterexample:
  "get_data dup_fs ''dup'' = Inr [(''id'', [''1'']), (''x'', [''2'', ''3''])] \<and>
   \<not> table_invariant [(''id'', [''1'']), (''x'', [''2'', ''3''])] 1"
  by (simp add: get_data_def dup_fs_def add_csv_suffix_def endswith_def empty_columns_def enumerate_eq_zip
      bind_def dict_get_def table_invariant_def)

text \<open>
  C3, amended. For a file whose records each supply a value for every header position,
  also when header names repeat, \<open>get_data\<close> returns a table with one key per distinct
  header name, in order of first occurrence, and the column of a name holds, record by
  record, the cells of every header position bearing that name, in position order.
\<close>

theorem get_data_duplicate_headers:
  assumes "fs (add_csv_suffix name) = Records (tags # rows)"
    and "\<forall>row\<in>set rows. length tags \<le> length row"
  shows "\<exists>content. get_data fs name = Inr content \<and>
           keys content = rev (remdups (rev tags)) \<and>
           (\<forall>k\<in>set tags. dict_get content k =
              Inr (concat (map (\<lambda>row. map (\<lambda>i. row ! i) (filter (\<lambda>i. tags ! i = k) [0..<length tags])) rows)))"
  using get_data_loaded[of fs name tags rows, OF assms] by (simp add: dict_get_Inr)

theorem get_data_duplicate_headers_witness:
  "\<exists>content. get_data dup_fs ''dup'' = Inr content \<and> keys content = [''id'', ''x''] \<and>
     dict_get content ''x'' = Inr [''2'', ''3'']"
proof -
  let ?tags = "[''id'', ''x'', ''x'']"
  let ?rows = "[[''1'', ''2'', ''3'']]"
  have f: "dup_fs (add_csv_suffix ''dup'') = Records (?tags # ?rows)"
    by (simp add: dup_fs_def add_csv_suffix_def endswith_def)
  have r: "\<forall>row\<in>set ?rows. length ?tags \<le> length row" by simp
  from get_data_duplicate_headers[of dup_fs "''dup''" ?tags ?rows, OF f r]
  obtain content where g: "get_data dup_fs ''dup'' = Inr content"
    and k: "keys content = rev (remdups (rev ?tags))"
    and c: "\<forall>k\<in>set ?tags. dict_get content k =
              Inr (concat (map (\<lambda>row. map (\<lambda>i. row ! i) (filter (\<lambda>i. ?tags ! i = k) [0..<length ?tags])) ?rows))"
    by blast
  have "dict_get content ''x'' = Inr [''2'', ''3'']" using c[rule_format, of "''x''"] by simp
  then show ?thesis using g k by simp
qed

text \<open>
  In the same file the column \<open>x\<close> holds the cells of both positions named \<open>x\<close>, not
  only the cell \<open>3\<close> of the last one.
\<close>

theorem get_data_duplicate_headers_counterexample:
  "get_data dup_fs ''dup.csv'' = Inr [(''id'', [''1'']), (''x'', [''2'', ''3''])] \<and>
   dict_get [(''id'', [''1'']), (''x'', [''2'', ''3''])] ''x'' \<noteq> Inr [''3'']"
  by (simp add: get_data_def dup_fs_def add_csv_suffix_def endswith_def empty_columns_def enumerate_eq_zip
      bind_def dict_get_def)


subsection \<open>Reading the columns by position\<close>

lemma py_index_1: "2 \<le> length xs \<Longrightarrow> py_index xs 1 = Inr (xs ! 1)"
  by (simp add: py_index_def)

lemma py_index_2: "3 \<le> length xs \<Longrightarrow> py_index xs 2 = Inr (xs ! 2)"
  by (simp add: py_index_def)

lemma py_index_last: "xs \<noteq> [] \<Longrightarrow> py_index xs (- 1) = Inr (last xs)"
  by (simp add: py_index_def last_conv_nth Suc_leI)

lemma length_keys: "length (keys d) = length d"
  by (simp add: keys_def)

lemma column_at:
  assumes "distinct (keys content)" "i < length content"
  shows "bind (py_index (keys content) (int i)) (dict_get content) = Inr (snd (content ! i))"
  using assms dict_get_nth[OF assms] by (simp add: py_index_def length_keys bind_simps)

lemma last_column:
  assumes "distinct (keys content)" "content \<noteq> []"
  shows "dict_get content (last (keys content)) = Inr (snd (last content))"
proof -
  have i: "length content - 1 < length content" using assms(2) by simp
  have "last (keys content) = keys content ! (length content - 1)"
    using assms(2) by (simp add: last_conv_nth keys_def)
  moreover have "last content = content ! (length content - 1)"
    using assms(2) by (simp add: last_conv_nth)
  ultimately show ?thesis using dict_get_nth[OF assms(1) i] by simp
qed

lemma table_invariant_nth:
  "table_invariant content n \<Longrightarrow> i < length content \<Longrightarrow> length (snd (content ! i)) = n"
  by (simp add: table_invariant_def list_all_length)

lemma keys_sorted_departments:
  "keys (foldl (\<lambda>d key. dict_set d key v) [] (sort (remdups xs))) = sort (remdups xs)"
  by (simp add: keys_comprehension keep_first_distinct)

subsection \<open>The loop of get_teams\<close>

lemma add_divisions_ok:
  assumes "\<forall>p\<in>set ps. fst p \<in> set (keys out)"
  shows "\<exists>out'. add_divisions out ps = Inr out' \<and> keys out' = keys out \<and>
           (\<forall>d. map_of out' d =
              map_option (\<lambda>teams. teams \<union> set (map snd (filter (\<lambda>p. fst p = d) ps))) (map_of out d))"
  using assms
proof (induction ps arbitrary: out)
  case Nil
  then show ?case by (simp add: option.map_ident)
next
  case (Cons p ps)
  obtain department division where p: "p = (department, division)" by (cases p)
  from Cons.prems p have dk: "department \<in> set (keys out)" by simp
  then obtain teams where t: "map_of out department = Some teams"
    using map_of_keys[of out department] by auto
  let ?out = "dict_set out department (insert division teams)"
  have k: "keys ?out = keys out" using dk by (simp add: keys_dict_set)
  from Cons.prems k have "\<forall>p\<in>set ps. fst p \<in> set (keys ?out)" by simp
  from Cons.IH[OF this] obtain out' where
    r: "add_divisions ?out ps = Inr out'" and k': "keys out' = keys ?out"
    and m: "\<forall>d. map_of out' d =
              map_option (\<lambda>teams. teams \<union> set (map snd (filter (\<lambda>p. fst p = d) ps))) (map_of ?out d)"
    by blast
  have "add_divisions out (p # ps) = Inr out'"
    using p t r by (simp add: bind_def dict_get_def)
  moreover have "map_of out' d =
      map_option (\<lambda>teams. teams \<union> set (map snd (filter (\<lambda>p. fst p = d) (p # ps)))) (map_of out d)" for d
    using m t p by (cases "map_of out d") (auto simp: map_of_dict_set)
  ultimately show ?case using k k' by auto
qed

lemma rows_of_department:
  assumes "length xs = n" "length ys = n"
  shows "set (map snd (filter (\<lambda>p. fst p = d) (zip xs ys))) = {ys ! i | i. i < n \<and> xs ! i = d}"
  using assms by (auto simp: set_zip image_iff)

lemma get_data_staff:
  "get_data staff_fs ''staff'' =
     Inr [(''id'', [''1'', ''2'', ''3'']), (''dept'', [''A'', ''A'', ''B'']),
          (''team'', [''X'', ''Y'', ''Z'']), (''salary'', [''100'', ''300'', ''200''])]"
  by (simp add: get_data_def staff_fs_def add_csv_suffix_def endswith_def empty_columns_def
      enumerate_eq_zip bind_def dict_get_def)

lemma sort_A_B: "sort (remdups [''A'', ''A'', ''B'']) = [''A'', ''B'']"
  by (simp add: less_eq_char_def less_char_def)

subsection \<open>Claim about the hierarchy\<close>

text \<open>
  C2. For a loaded table with at least three columns, all of the same length,
  \<open>get_teams\<close> returns a mapping whose keys are the distinct values of the second column,
  in sorted order, and whose value at a department is the set of third-column values of
  the rows carrying that department: no other key, no other division.
\<close>

theorem get_teams_correct:
  assumes "get_data fs name = Inr content"
    and "3 \<le> length content"
    and "table_invariant content n"
  shows "\<exists>out. get_teams fs name = Inr out \<and>
           keys out = sort (remdups (snd (content ! 1))) \<and>
           set (keys out) = set (snd (content ! 1)) \<and>
           (\<forall>d\<in>set (snd (content ! 1)).
              dict_get out d =
                Inr {snd (content ! 2) ! i | i. i < n \<and> snd (content ! 1) ! i = d})"
proof -
  define departments where "departments = snd (content ! 1)"
  define divisions where "divisions = snd (content ! 2)"
  define out0 :: "string set dict"
    where "out0 = foldl (\<lambda>d key. dict_set d key {}) [] (sort (remdups departments))"
  have dk: "distinct (keys content)" using assms(1) by (rule get_data_distinct_keys)
  have c1: "bind (py_index (keys content) 1) (dict_get content) = Inr departments"
    using column_at[OF dk, of 1] assms(2) by (simp add: departments_def)
  have c2: "bind (py_index (keys content) 2) (dict_get content) = Inr divisions"
    using column_at[OF dk, of 2] assms(2) by (simp add: divisions_def)
  have g: "get_teams fs name = add_divisions out0 (zip departments divisions)"
    using c1 c2 assms(1)
    by (auto simp: get_teams_def bind_Inr bind_simps Let_def out0_def)
  have k0: "keys out0 = sort (remdups departments)"
    by (simp add: out0_def keys_sorted_departments)
  have m0: "map_of out0 d = (if d \<in> set departments then Some {} else None)" for d
    by (simp add: out0_def map_of_comprehension)
  have "\<forall>p\<in>set (zip departments divisions). fst p \<in> set (keys out0)"
    using k0 by (auto dest: set_zip_leftD)
  from add_divisions_ok[OF this] obtain out where
    r: "add_divisions out0 (zip departments divisions) = Inr out" and k: "keys out = keys out0"
    and m: "\<forall>d. map_of out d =
              map_option (\<lambda>teams. teams \<union> set (map snd (filter (\<lambda>p. fst p = d) (zip departments divisions))))
                (map_of out0 d)"
    by blast
  have l: "length departments = n" "length divisions = n"
    using assms(2,3) by (simp_all add: departments_def divisions_def table_invariant_nth)
  have "dict_get out d = Inr {divisions ! i | i. i < n \<and> departments ! i = d}"
    if "d \<in> set departments" for d
    using m m0 that rows_of_department[OF l, of d] by (simp add: dict_get_Inr)
  then show ?thesis
    using g r k k0 by (simp add: departments_def divisions_def)
qed

theorem get_teams_correct_witness:
  "\<exists>out. get_teams staff_fs ''staff'' = Inr out \<and> keys out = [''A'', ''B''] \<and>
     dict_get out ''A'' = Inr {''X'', ''Y''} \<and> dict_get out ''B'' = Inr {''Z''}"
proof -
  let ?content = "[(''id'', [''1'', ''2'', ''3'']), (''dept'', [''A'', ''A'', ''B'']),
                   (''team'', [''X'', ''Y'', ''Z'']), (''salary'', [''100'', ''300'', ''200''])]"
  have l: "3 \<le> length ?content" by simp
  have t: "table_invariant ?content 3" by (simp add: table_invariant_def)
  from get_teams_correct[OF get_data_staff l t]
  obtain out where g: "get_teams staff_fs ''staff'' = Inr out"
    and k: "keys out = sort (remdups (snd (?content ! 1)))"
    and m: "\<forall>d\<in>set (snd (?content ! 1)).
              dict_get out d = Inr {snd (?content ! 2) ! i | i. i < 3 \<and> snd (?content ! 1) ! i = d}"
    by blast
  have "{[''X'', ''Y'', ''Z''] ! i | i. i < 3 \<and> [''A'', ''A'', ''B''] ! i = ''A''} = {''X'', ''Y''}"
    using rows_of_department[of "[''A'', ''A'', ''B'']" 3 "[''X'', ''Y'', ''Z'']" "''A''"] by auto
  then have a: "dict_get out ''A'' = Inr {''X'', ''Y''}" using m[rule_format, of "''A''"] by simp
  have "{[''X'', ''Y'', ''Z''] ! i | i. i < 3 \<and> [''A'', ''A'', ''B''] ! i = ''B''} = {''Z''}"
    using rows_of_department[of "[''A'', ''A'', ''B'']" 3 "[''X'', ''Y'', ''Z'']" "''B''"] by auto
  then have b: "dict_get out ''B'' = Inr {''Z''}" using m[rule_format, of "''B''"] by simp
  show ?thesis using g k a b by (simp add: sort_A_B)
qed


subsection \<open>The loops of get_reports\<close>

lemma py_int_cases: "py_int s = Inl (ValueError ''int'') \<or> (\<exists>n. py_int s = Inr n)"
  by (simp add: py_int_def Let_def split: option.splits)

lemma collect_salaries_keys:
  "collect_salaries acc ps = Inr acc' \<Longrightarrow> keys acc' = keys acc"
proof (induction acc ps arbitrary: acc' rule: collect_salaries.induct)
  case (1 acc)
  then show ?case by simp
next
  case (2 acc department salary rest)
  from "2.prems" obtain salaries n where c: "dict_get acc department = Inr salaries"
    and n: "py_int salary = Inr n"
    and r: "collect_salaries (dict_set acc department (salaries @ [n])) rest = Inr acc'"
    by (auto simp: bind_Inr)
  from c have "department \<in> set (keys acc)"
    using map_of_keys[of acc department] by (auto simp: dict_get_Inr)
  then show ?case using "2.IH"[OF r] by (simp add: keys_dict_set)
qed

lemma collect_salaries_ok:
  assumes "\<forall>p\<in>set ps. fst p \<in> set (keys acc)" "\<forall>p\<in>set ps. \<exists>n. py_int (snd p) = Inr n"
  shows "\<exists>acc'. collect_salaries acc ps = Inr acc' \<and>
           (\<forall>d. map_of acc' d =
              map_option (\<lambda>xs. xs @ map (\<lambda>p. projr (py_int (snd p))) (filter (\<lambda>p. fst p = d) ps))
                (map_of acc d))"
  using assms
proof (induction ps arbitrary: acc)
  case Nil
  then show ?case by (simp add: option.map_ident)
next
  case (Cons p ps)
  obtain department salary where p: "p = (department, salary)" by (cases p)
  from Cons.prems p have dk: "department \<in> set (keys acc)" by simp
  then obtain salaries where t: "map_of acc department = Some salaries"
    using map_of_keys[of acc department] by auto
  from Cons.prems(2) p obtain n where n: "py_int salary = Inr n" by auto
  let ?acc = "dict_set acc department (salaries @ [n])"
  have k: "keys ?acc = keys acc" using dk by (simp add: keys_dict_set)
  from Cons.prems k have "\<forall>p\<in>set ps. fst p \<in> set (keys ?acc)"
    "\<forall>p\<in>set ps. \<exists>n. py_int (snd p) = Inr n" by simp_all
  from Cons.IH[OF this] obtain acc' where
    r: "collect_salaries ?acc ps = Inr acc'"
    and m: "\<forall>d. map_of acc' d =
              map_option (\<lambda>xs. xs @ map (\<lambda>p. projr (py_int (snd p))) (filter (\<lambda>p. fst p = d) ps))
                (map_of ?acc d)"
    by blast
  have "collect_salaries acc (p # ps) = Inr acc'"
    using p t n r by (simp add: bind_def dict_get_def)
  moreover have "map_of acc' d =
      map_option (\<lambda>xs. xs @ map (\<lambda>p. projr (py_int (snd p))) (filter (\<lambda>p. fst p = d) (p # ps)))
        (map_of acc d)" for d
    using m t p n by (cases "map_of acc d") (auto simp: map_of_dict_set)
  ultimately show ?case by auto
qed

lemma collect_salaries_fails:
  assumes "\<forall>p\<in>set ps. fst p \<in> set (keys acc)" "\<exists>p\<in>set ps. py_int (snd p) = Inl (ValueError ''int'')"
  shows "collect_salaries acc ps = Inl (ValueError ''int'')"
  using assms
proof (induction ps arbitrary: acc)
  case Nil
  then show ?case by simp
next
  case (Cons p ps)
  obtain department salary where p: "p = (department, salary)" by (cases p)
  from Cons.prems p have dk: "department \<in> set (keys acc)" by simp
  then obtain salaries where t: "dict_get acc department = Inr salaries"
    using dict_get_key by blast
  show ?case
  proof (cases "py_int salary")
    case (Inl e)
    then have "e = ValueError ''int''" using py_int_cases[of salary] by auto
    then show ?thesis using p t Inl by (simp add: bind_simps)
  next
    case (Inr n)
    let ?acc = "dict_set acc department (salaries @ [n])"
    have k: "keys ?acc = keys acc" using dk by (simp add: keys_dict_set)
    from Cons.prems Inr p k have "\<forall>p\<in>set ps. fst p \<in> set (keys ?acc)"
      "\<exists>p\<in>set ps. py_int (snd p) = Inl (ValueError ''int'')" by auto
    from Cons.IH[OF this] show ?thesis using p t Inr by (simp add: bind_simps)
  qed
qed

lemma fold_min_Min: "fold min rest (x::int) = Min (set (x # rest))"
  using Min.set_eq_fold[of x rest] by simp

lemma fold_max_Max: "fold max rest (x::int) = Max (set (x # rest))"
  using Max.set_eq_fold[of x rest] by simp

lemma department_record_eq:
  "department_record xs =
     (if xs = [] then Inl (ValueError ''min'')
      else if mean_in_range xs then Inr (summary xs) else Inl OverflowError)"
proof (cases xs)
  case Nil
  then show ?thesis by (simp add: department_record_def py_min_def bind_simps)
next
  case (Cons x rest)
  have "py_min xs = Inr (Min (set xs))" "py_max xs = Inr (Max (set xs))"
    using Cons by (simp_all add: py_min_def py_max_def fold_min_Min fold_max_Max)
  then show ?thesis using Cons
    by (simp add: department_record_def bind_simps py_truediv_def Let_def mean_in_range_def
        summary_def not_le)
qed

lemma build_report_ok:
  assumes "distinct (keys acc)" "set (keys report) \<inter> set (keys acc) = {}"
    and "\<forall>xs\<in>set (map snd acc). xs \<noteq> [] \<and> mean_in_range xs"
  shows "build_report report acc = Inr (report @ map (\<lambda>(d, xs). (d, summary xs)) acc)"
  using assms
proof (induction acc arbitrary: report)
  case Nil
  then show ?case by simp
next
  case (Cons a acc)
  obtain department salaries where a: "a = (department, salaries)" by (cases a)
  from Cons.prems a have nk: "department \<notin> set (keys report)" by (auto simp: keys_def)
  have r: "department_record salaries = Inr (summary salaries)"
    using Cons.prems(3) a by (simp add: department_record_eq)
  let ?report = "report @ [(department, summary salaries)]"
  have "distinct (keys acc)" "set (keys ?report) \<inter> set (keys acc) = {}"
    "\<forall>xs\<in>set (map snd acc). xs \<noteq> [] \<and> mean_in_range xs"
    using Cons.prems a by (auto simp: keys_def)
  from Cons.IH[OF this] show ?case
    using a r nk by (simp add: bind_simps dict_set_new)
qed

lemma build_report_Inr:
  "build_report report acc = Inr report' \<Longrightarrow> \<forall>xs\<in>set (map snd acc). xs \<noteq> [] \<and> mean_in_range xs"
proof (induction acc arbitrary: report)
  case Nil
  then show ?case by simp
next
  case (Cons a acc)
  obtain department salaries where a: "a = (department, salaries)" by (cases a)
  from Cons.prems a obtain data where d: "department_record salaries = Inr data"
    and r: "build_report (dict_set report department data) acc = Inr report'"
    by (auto simp: bind_Inr)
  from d have "salaries \<noteq> [] \<and> mean_in_range salaries"
    by (auto simp: department_record_eq split: if_splits)
  then show ?case using Cons.IH[OF r] a by simp
qed

lemma build_report_Inl:
  "build_report report acc = Inl e \<Longrightarrow>
     e = OverflowError \<or> (e = ValueError ''min'' \<and> [] \<in> set (map snd acc))"
proof (induction acc arbitrary: report)
  case Nil
  then show ?case by simp
next
  case (Cons a acc)
  obtain department salaries where a: "a = (department, salaries)" by (cases a)
  show ?case
  proof (cases "department_record salaries")
    case (Inl e')
    then have "e = e'" using Cons.prems a by (simp add: bind_simps)
    then show ?thesis using Inl a by (auto simp: department_record_eq split: if_splits)
  next
    case (Inr data)
    then have "build_report (dict_set report department data) acc = Inl e"
      using Cons.prems a by (simp add: bind_simps)
    from Cons.IH[OF this] show ?thesis by auto
  qed
qed


subsection \<open>get_reports on a loaded table\<close>

lemma dict_as_map:
  "distinct (keys d) \<Longrightarrow> d = map (\<lambda>k. (k, the (map_of d k))) (keys d)"
proof (induction d)
  case Nil
  then show ?case by (simp add: keys_def)
next
  case (Cons a d)
  obtain k v where a: "a = (k, v)" by (cases a)
  from Cons.prems a have nk: "k \<notin> set (keys d)" and dd: "distinct (keys d)"
    by (simp_all add: keys_def)
  have "map (\<lambda>k'. (k', the (map_of (a # d) k'))) (keys d) = map (\<lambda>k'. (k', the (map_of d k'))) (keys d)"
    using nk a by (intro map_cong) auto
  moreover have "keys (a # d) = k # keys d" using a by (simp add: keys_def)
  moreover have "map (\<lambda>k'. (k', the (map_of d k'))) (keys d) = d"
    using Cons.IH[OF dd] by simp
  ultimately show ?case using a by simp
qed

lemma salaries_by_departments_unfold:
  assumes "get_data fs name = Inr content" "2 \<le> length content"
  shows "salaries_by_departments fs name =
           collect_salaries (foldl (\<lambda>d key. dict_set d key []) [] (sort (remdups (snd (content ! 1)))))
             (zip (snd (content ! 1)) (snd (last content)))"
proof -
  have dk: "distinct (keys content)" using assms(1) by (rule get_data_distinct_keys)
  have ne: "content \<noteq> []" "keys content \<noteq> []" using assms(2) by (auto simp: keys_def)
  have c1: "bind (py_index (keys content) 1) (dict_get content) = Inr (snd (content ! 1))"
    using column_at[OF dk, of 1] assms(2) by simp
  then obtain k1 where k1: "py_index (keys content) 1 = Inr k1"
    "dict_get content k1 = Inr (snd (content ! 1))"
    by (auto simp: bind_Inr)
  have c2: "py_index (keys content) (- 1) = Inr (last (keys content))"
    using ne by (simp add: py_index_last)
  show ?thesis
    using assms(1) k1 c2 last_column[OF dk ne(1)]
    by (simp add: salaries_by_departments_def bind_simps Let_def)
qed

lemma salaries_by_departments_short:
  assumes "get_data fs name = Inr content" "length content < 2"
  shows "salaries_by_departments fs name = Inl IndexError"
  using assms
  by (simp add: salaries_by_departments_def bind_simps py_index_def length_keys)

lemma salaries_by_departments_no_table:
  "get_data fs name = Inl e \<Longrightarrow> salaries_by_departments fs name = Inl e"
  by (simp add: salaries_by_departments_def bind_simps)

lemma salaries_by_departments_keys:
  assumes "salaries_by_departments fs name = Inr acc" "get_data fs name = Inr content"
  shows "keys acc = sort (remdups (snd (content ! 1)))"
proof (cases "2 \<le> length content")
  case True
  from assms show ?thesis
    unfolding salaries_by_departments_unfold[OF assms(2) True]
    by (auto dest!: collect_salaries_keys simp: keys_sorted_departments)
next
  case False
  then show ?thesis using salaries_by_departments_short[OF assms(2)] assms(1) by simp
qed

lemma salaries_by_departments_table:
  assumes "salaries_by_departments fs name = Inr acc"
  shows "\<exists>content. get_data fs name = Inr content"
  using assms salaries_by_departments_no_table[of fs name] by (cases "get_data fs name") auto

lemma zip_covers:
  assumes "length xs = length ys"
  shows "fst ` set (zip xs ys) = set xs" "snd ` set (zip xs ys) = set ys"
  using assms by (simp_all flip: set_map)

lemma length_filter_zip:
  "length xs = length ys \<Longrightarrow>
     length (filter (\<lambda>p. fst p = d) (zip xs ys)) = length (filter (\<lambda>x. x = d) xs)"
  by (induction xs ys rule: list_induct2) simp_all

lemma length_department_salaries:
  "length xs = length ys \<Longrightarrow>
     length (department_salaries d xs ys) = length (filter (\<lambda>x. x = d) xs)"
  by (simp add: department_salaries_def length_filter_zip)

lemma department_salaries_nonempty:
  assumes "length xs = length ys" "d \<in> set xs"
  shows "department_salaries d xs ys \<noteq> []"
proof -
  have "filter (\<lambda>x. x = d) xs \<noteq> []" using assms(2) by (simp add: filter_empty_conv)
  then have "length (department_salaries d xs ys) \<noteq> 0"
    using length_department_salaries[OF assms(1), of d] by simp
  then show ?thesis by auto
qed

lemma valid_table_lengths:
  assumes "2 \<le> length content" "table_invariant content n"
  shows "length (snd (content ! 1)) = n" "length (snd (last content)) = n"
proof -
  have ne: "content \<noteq> []" using assms(1) by auto
  show "length (snd (content ! 1)) = n"
    using assms table_invariant_nth[OF assms(2), of 1] by simp
  show "length (snd (last content)) = n"
    using ne table_invariant_nth[OF assms(2), of "length content - 1"]
    by (simp add: last_conv_nth)
qed

text \<open>The accumulator of a valid table whose salary cells all parse.\<close>

lemma salaries_by_departments_valid:
  assumes g: "get_data fs name = Inr content" and l: "2 \<le> length content"
    and t: "table_invariant content n"
    and p: "\<forall>s\<in>set (snd (last content)). \<exists>n. py_int s = Inr n"
  shows "salaries_by_departments fs name =
           Inr (map (\<lambda>d. (d, department_salaries d (snd (content ! 1)) (snd (last content))))
                  (sort (remdups (snd (content ! 1)))))"
proof -
  define departments where "departments = snd (content ! 1)"
  define salaries where "salaries = snd (last content)"
  define acc0 :: "int list dict"
    where "acc0 = foldl (\<lambda>d key. dict_set d key []) [] (sort (remdups departments))"
  have u: "salaries_by_departments fs name = collect_salaries acc0 (zip departments salaries)"
    using salaries_by_departments_unfold[OF g l] by (simp add: departments_def salaries_def acc0_def)
  have k0: "keys acc0 = sort (remdups departments)"
    by (simp add: acc0_def keys_sorted_departments)
  have m0: "map_of acc0 d = (if d \<in> set departments then Some [] else None)" for d
    by (simp add: acc0_def map_of_comprehension)
  have 1: "\<forall>p\<in>set (zip departments salaries). fst p \<in> set (keys acc0)"
    using k0 by (auto dest: set_zip_leftD)
  have 2: "\<forall>p\<in>set (zip departments salaries). \<exists>n. py_int (snd p) = Inr n"
    using p by (auto simp: salaries_def dest: set_zip_rightD)
  from collect_salaries_ok[OF 1 2] obtain acc where
    r: "collect_salaries acc0 (zip departments salaries) = Inr acc"
    and m: "\<forall>d. map_of acc d =
              map_option (\<lambda>xs. xs @ map (\<lambda>p. projr (py_int (snd p)))
                                      (filter (\<lambda>p. fst p = d) (zip departments salaries)))
                (map_of acc0 d)"
    by blast
  have k: "keys acc = sort (remdups departments)"
    using collect_salaries_keys[OF r] k0 by simp
  then have dk: "distinct (keys acc)" by simp
  have e1: "map (\<lambda>d. (d, the (map_of acc d))) (keys acc) =
        map (\<lambda>d. (d, department_salaries d departments salaries)) (keys acc)"
    using m m0 k by (intro map_cong) (auto simp: department_salaries_def)
  have e2: "acc = map (\<lambda>d. (d, the (map_of acc d))) (keys acc)"
    by (rule dict_as_map[OF dk])
  have "acc = map (\<lambda>d. (d, department_salaries d departments salaries)) (keys acc)"
    by (rule trans[OF e2 e1])
  then have "acc = map (\<lambda>d. (d, department_salaries d departments salaries)) (sort (remdups departments))"
    unfolding k .
  then show ?thesis using u r by (simp add: departments_def salaries_def)
qed

lemma salaries_by_departments_invalid:
  assumes g: "get_data fs name = Inr content" and l: "2 \<le> length content"
    and t: "table_invariant content n"
    and p: "\<exists>s\<in>set (snd (last content)). py_int s = Inl (ValueError ''int'')"
  shows "salaries_by_departments fs name = Inl (ValueError ''int'')"
proof -
  define departments where "departments = snd (content ! 1)"
  define salaries where "salaries = snd (last content)"
  define acc0 :: "int list dict"
    where "acc0 = foldl (\<lambda>d key. dict_set d key []) [] (sort (remdups departments))"
  have u: "salaries_by_departments fs name = collect_salaries acc0 (zip departments salaries)"
    using salaries_by_departments_unfold[OF g l] by (simp add: departments_def salaries_def acc0_def)
  have k0: "keys acc0 = sort (remdups departments)"
    by (simp add: acc0_def keys_sorted_departments)
  have len: "length departments = length salaries"
    using valid_table_lengths[OF l t] by (simp add: departments_def salaries_def)
  have 1: "\<forall>p\<in>set (zip departments salaries). fst p \<in> set (keys acc0)"
    using k0 by (auto dest: set_zip_leftD)
  from p obtain s where s: "s \<in> set salaries" "py_int s = Inl (ValueError ''int'')"
    by (auto simp: salaries_def)
  then have "s \<in> snd ` set (zip departments salaries)" using zip_covers(2)[OF len] by simp
  with s have 2: "\<exists>p\<in>set (zip departments salaries). py_int (snd p) = Inl (ValueError ''int'')"
    by auto
  show ?thesis using collect_salaries_fails[OF 1 2] u by simp
qed

text \<open>The three outcomes of get_reports on a valid table.\<close>

lemma get_reports_valid:
  assumes g: "get_data fs name = Inr content" and l: "2 \<le> length content"
    and t: "table_invariant content n"
  shows "get_reports fs name =
     (if \<exists>s\<in>set (snd (last content)). py_int s = Inl (ValueError ''int'')
      then Inl (ValueError ''int'')
      else if \<forall>d\<in>set (snd (content ! 1)).
                mean_in_range (department_salaries d (snd (content ! 1)) (snd (last content)))
      then Inr (map (\<lambda>d. (d, summary (department_salaries d (snd (content ! 1)) (snd (last content)))))
                  (sort (remdups (snd (content ! 1)))))
      else Inl OverflowError)"
proof (cases "\<exists>s\<in>set (snd (last content)). py_int s = Inl (ValueError ''int'')")
  case True
  then show ?thesis
    using salaries_by_departments_invalid[OF g l t] by (simp add: get_reports_def bind_simps)
next
  case False
  define departments where "departments = snd (content ! 1)"
  define salaries where "salaries = snd (last content)"
  define acc where "acc = map (\<lambda>d. (d, department_salaries d departments salaries)) (sort (remdups departments))"
  have p: "\<forall>s\<in>set (snd (last content)). \<exists>n. py_int s = Inr n"
    using False py_int_cases by blast
  have s: "salaries_by_departments fs name = Inr acc"
    using salaries_by_departments_valid[OF g l t p] by (simp add: acc_def departments_def salaries_def)
  have gr: "get_reports fs name = build_report [] acc"
    using s by (simp add: get_reports_def bind_simps)
  have len: "length departments = length salaries"
    using valid_table_lengths[OF l t] by (simp add: departments_def salaries_def)
  have ka: "keys acc = sort (remdups departments)" by (simp add: acc_def keys_def comp_def)
  have sa: "set (map snd acc) = (\<lambda>d. department_salaries d departments salaries) ` set departments"
    by (auto simp: acc_def)
  have ne: "\<forall>xs\<in>set (map snd acc). xs \<noteq> []"
    unfolding sa using department_salaries_nonempty[OF len] by auto
  show ?thesis
  proof (cases "\<forall>d\<in>set departments. mean_in_range (department_salaries d departments salaries)")
    case True
    have "\<forall>xs\<in>set (map snd acc). xs \<noteq> [] \<and> mean_in_range xs"
      using ne True unfolding sa by auto
    moreover have "distinct (keys acc)" using ka by simp
    ultimately have "build_report [] acc = Inr ([] @ map (\<lambda>(d, xs). (d, summary xs)) acc)"
      by (intro build_report_ok) (simp_all add: keys_def)
    then have "get_reports fs name = Inr (map (\<lambda>d. (d, summary (department_salaries d departments salaries)))
                  (sort (remdups departments)))"
      using gr by (simp add: acc_def comp_def)
    then show ?thesis using True False by (simp add: departments_def salaries_def)
  next
    case nr: False
    have "build_report [] acc \<noteq> Inr report" for report
      using build_report_Inr[of "[]" acc report] nr unfolding sa by auto
    then obtain e where e: "build_report [] acc = Inl e" by (cases "build_report [] acc") auto
    from build_report_Inl[OF e] ne have "e = OverflowError" by auto
    then show ?thesis using e gr nr False by (simp add: departments_def salaries_def)
  qed
qed

lemma dict_get_map:
  "d \<in> set ks \<Longrightarrow> dict_get (map (\<lambda>k. (k, f k)) ks) d = Inr (f d)"
  by (simp add: dict_get_def map_of_map_restrict)

lemma keys_map: "keys (map (\<lambda>k. (k, f k)) ks) = ks"
  by (simp add: keys_def comp_def)

lemma head_count_total:
  "sum_list (map (\<lambda>d. length (filter (\<lambda>x. x = d) xs)) (sort (remdups xs))) = length xs"
proof -
  have "sum_list (map (\<lambda>d. length (filter (\<lambda>x. x = d) xs)) (sort (remdups xs))) =
        sum (\<lambda>d. length (filter (\<lambda>x. x = d) xs)) (set (sort (remdups xs)))"
    by (rule sum_list_distinct_conv_sum_set) simp
  also have "\<dots> = sum (count_list xs) (set xs)"
    by (rule sum.cong) (auto simp: count_list_eq_length_filter intro: arg_cong[where f=length] filter_cong)
  also have "\<dots> = length xs" by (rule sum_count_set) simp_all
  finally show ?thesis .
qed

text \<open>What a returned report says about the run that produced it.\<close>

lemma get_reports_Inr:
  assumes "get_reports fs name = Inr report"
  shows "\<exists>content acc. get_data fs name = Inr content \<and>
           salaries_by_departments fs name = Inr acc \<and>
           keys acc = sort (remdups (snd (content ! 1))) \<and>
           (\<forall>xs\<in>set (map snd acc). xs \<noteq> [] \<and> mean_in_range xs) \<and>
           report = map (\<lambda>(d, xs). (d, summary xs)) acc"
proof -
  from assms obtain acc where s: "salaries_by_departments fs name = Inr acc"
    and b: "build_report [] acc = Inr report"
    by (auto simp: get_reports_def bind_Inr)
  from salaries_by_departments_table[OF s] obtain content where g: "get_data fs name = Inr content"
    by blast
  have k: "keys acc = sort (remdups (snd (content ! 1)))"
    using s g by (rule salaries_by_departments_keys)
  have ok: "\<forall>xs\<in>set (map snd acc). xs \<noteq> [] \<and> mean_in_range xs"
    using b by (rule build_report_Inr)
  have "distinct (keys acc)" using k by simp
  then have "build_report [] acc = Inr ([] @ map (\<lambda>(d, xs). (d, summary xs)) acc)"
    using ok by (intro build_report_ok) (simp_all add: keys_def)
  then have "report = map (\<lambda>(d, xs). (d, summary xs)) acc" using b by simp
  then show ?thesis using g s k ok by blast
qed

lemma keys_map_values: "keys (map (\<lambda>(d, xs). (d, f xs)) acc) = keys acc"
  by (induction acc) (auto simp: keys_def)

lemma dict_get_map_values:
  "dict_get acc d = Inr xs \<Longrightarrow> dict_get (map (\<lambda>(d, xs). (d, f xs)) acc) d = Inr (f xs)"
  by (induction acc) (auto simp: dict_get_def split: option.splits if_splits)


subsection \<open>Evaluation on the example files\<close>

lemmas py_int_eval =
  py_int_def is_ascii_def ascii_int_def int_max_str_digits_def strip_with_def digits_def
  digit_val_def is_digit_def int_space_def less_eq_char_def less_char_def Let_def

lemmas get_data_eval =
  get_data_def add_csv_suffix_def endswith_def empty_columns_def enumerate_eq_zip bind_def
  dict_get_def

lemma to_double_numeral:
  "(numeral k :: int) \<le> 2 ^ 53 \<Longrightarrow> to_double (numeral k) = numeral k"
  using to_double_of_int[of "numeral k"] by simp

lemma py_round2_numeral:
  "(numeral k :: int) \<le> 2 ^ 53 \<Longrightarrow> py_round2 (numeral k) = numeral k"
  using py_round2_of_int[of "numeral k"] by simp

lemma get_data_big:
  "get_data big_fs ''big'' =
     Inr [(''id'', [''1'']), (''dept'', [''A'']), (''salary'', [''9007199254740993''])]"
  by (simp add: big_fs_def get_data_eval)

lemma get_data_bad:
  "get_data bad_fs ''bad'' =
     Inr [(''id'', [''1'', ''2'']), (''dept'', [''A'', ''B'']), (''salary'', [''100'', ''abc''])]"
  by (simp add: bad_fs_def get_data_eval)

lemma get_data_huge:
  "get_data huge_fs ''huge'' =
     Inr [(''id'', [''1'']), (''dept'', [''A'']), (''salary'', [huge_salary])]"
  by (simp add: huge_fs_def get_data_eval)

lemma py_int_staff:
  "py_int ''100'' = Inr 100" "py_int ''300'' = Inr 300" "py_int ''200'' = Inr 200"
  by (simp_all add: py_int_eval)

lemma py_int_abc: "py_int ''abc'' = Inl (ValueError ''int'')"
  by (simp add: py_int_eval)

lemma py_int_big: "py_int ''9007199254740993'' = Inr 9007199254740993"
  by (simp add: py_int_eval)

lemma digits_from_zeros: "digits_from acc (replicate n CHR ''0'') = Some (acc * 10 ^ n)"
proof (induction n arbitrary: acc rule: less_induct)
  case (less n)
  show ?case
  proof (cases n)
    case 0
    then show ?thesis by simp
  next
    case (Suc m)
    show ?thesis
    proof (cases m)
      case 0
      then show ?thesis using Suc by (simp add: digit_val_def is_digit_def less_eq_char_def)
    next
      case (Suc j)
      have "digits_from acc (replicate n CHR ''0'') =
            digits_from (10 * acc + 0) (CHR ''0'' # replicate j CHR ''0'')"
        using Suc \<open>n = Suc m\<close> by (simp add: digit_val_def is_digit_def less_eq_char_def)
      also have "\<dots> = digits_from (10 * acc) (replicate m CHR ''0'')" using Suc by simp
      also have "\<dots> = Some (10 * acc * 10 ^ m)" using less[of m] \<open>n = Suc m\<close> by simp
      finally show ?thesis using \<open>n = Suc m\<close> by (simp add: mult.assoc mult.commute)
    qed
  qed
qed

lemma strip_no_space:
  assumes "s \<noteq> []" "\<not> space (hd s)" "\<not> space (last s)"
  shows "strip_with space s = s"
proof -
  have "dropWhile space s = s" using assms(1,2) by (cases s) simp_all
  moreover have "dropWhile space (rev s) = rev s"
    using assms(1,3) by (cases "rev s") (simp_all add: last_rev[symmetric] hd_rev)
  ultimately show ?thesis by (simp add: strip_with_def)
qed

lemma py_int_huge: "py_int huge_salary = Inr (10 ^ 309)"
proof -
  have a: "is_ascii huge_salary"
    by (simp add: huge_salary_def is_ascii_def list_all_iff less_char_def)
  have s: "strip_with int_space huge_salary = huge_salary"
    by (rule strip_no_space)
       (simp_all add: huge_salary_def int_space_def less_eq_char_def)
  have "filter is_digit huge_salary = huge_salary"
    by (simp add: huge_salary_def is_digit_def less_eq_char_def)
  then have n: "length (filter is_digit huge_salary) = 310"
    by (simp add: huge_salary_def)
  have d: "digits huge_salary = Some (10 ^ 309)"
    by (simp add: huge_salary_def digits_def digit_val_def is_digit_def less_eq_char_def
        digits_from_zeros)
  have "ascii_int huge_salary = Some (10 ^ 309)"
    unfolding ascii_int_def s Let_def using n d
    by (simp add: int_max_str_digits_def huge_salary_def)
  then show ?thesis using a by (simp add: py_int_def)
qed

lemma staff_salaries:
  "department_salaries ''A'' [''A'', ''A'', ''B''] [''100'', ''300'', ''200''] = [100, 300]"
  "department_salaries ''B'' [''A'', ''A'', ''B''] [''100'', ''300'', ''200''] = [200]"
  by (simp_all add: department_salaries_def py_int_staff)

lemma staff_in_range: "mean_in_range [100, 300]" "mean_in_range [200]"
  by (simp_all add: mean_in_range_def to_double_numeral)

lemma staff_summary:
  "summary [100, 300] = \<lparr>min_salary = 100, max_salary = 300, head_count = 2, mean_salary = 200\<rparr>"
  "summary [200] = \<lparr>min_salary = 200, max_salary = 200, head_count = 1, mean_salary = 200\<rparr>"
  by (simp_all add: summary_def to_double_numeral py_round2_numeral)

lemma get_reports_staff:
  "get_reports staff_fs ''staff'' =
     Inr [(''A'', \<lparr>min_salary = 100, max_salary = 300, head_count = 2, mean_salary = 200\<rparr>),
          (''B'', \<lparr>min_salary = 200, max_salary = 200, head_count = 1, mean_salary = 200\<rparr>)]"
proof -
  let ?content = "[(''id'', [''1'', ''2'', ''3'']), (''dept'', [''A'', ''A'', ''B'']),
                   (''team'', [''X'', ''Y'', ''Z'']), (''salary'', [''100'', ''300'', ''200''])]"
  have l: "2 \<le> length ?content" by simp
  have t: "table_invariant ?content 3" by (simp add: table_invariant_def)
  show ?thesis
    using get_reports_valid[OF get_data_staff l t]
    by (simp add: py_int_staff staff_salaries staff_in_range staff_summary sort_A_B)
qed

lemma salaries_by_departments_staff:
  "salaries_by_departments staff_fs ''staff'' = Inr [(''A'', [100, 300]), (''B'', [200])]"
proof -
  let ?content = "[(''id'', [''1'', ''2'', ''3'']), (''dept'', [''A'', ''A'', ''B'']),
                   (''team'', [''X'', ''Y'', ''Z'']), (''salary'', [''100'', ''300'', ''200''])]"
  have l: "2 \<le> length ?content" by simp
  have t: "table_invariant ?content 3" by (simp add: table_invariant_def)
  have p: "\<forall>s\<in>set (snd (last ?content)). \<exists>v. py_int s = Inr v" by (simp add: py_int_staff)
  show ?thesis
    using salaries_by_departments_valid[OF get_data_staff l t p]
    by (simp add: sort_A_B staff_salaries)
qed

lemma to_double_big: "to_double 9007199254740993 = 9007199254740992"
proof -
  have "(2::rat) powi 53 \<le> \<bar>9007199254740993\<bar>" "\<bar>9007199254740993 :: rat\<bar> < 2 powi (53 + 1)"
    by simp_all
  moreover have "\<lfloor>(9007199254740993::rat) / 2\<rfloor> = 4503599627370496"
    by (rule floor_unique) simp_all
  ultimately show ?thesis using to_double_eval[of 53 9007199254740993] by (simp add: rne_def Let_def)
qed

lemma get_reports_big:
  "get_reports big_fs ''big'' =
     Inr [(''A'', \<lparr>min_salary = 9007199254740993, max_salary = 9007199254740993,
                  head_count = 1, mean_salary = 9007199254740992\<rparr>)]"
proof -
  let ?content = "[(''id'', [''1'']), (''dept'', [''A'']), (''salary'', [''9007199254740993''])]"
  have l: "2 \<le> length ?content" by simp
  have t: "table_invariant ?content 1" by (simp add: table_invariant_def)
  have s: "department_salaries ''A'' [''A''] [''9007199254740993''] = [9007199254740993]"
    by (simp add: department_salaries_def py_int_big)
  have r: "mean_in_range [9007199254740993]"
    by (simp add: mean_in_range_def to_double_big)
  have m: "summary [9007199254740993] =
      \<lparr>min_salary = 9007199254740993, max_salary = 9007199254740993,
       head_count = 1, mean_salary = 9007199254740992\<rparr>"
    by (simp add: summary_def to_double_big py_round2_numeral)
  show ?thesis
    using get_reports_valid[OF get_data_big l t] by (simp add: py_int_big s r m)
qed


text \<open>\<open>int\<close> and \<open>strip\<close> beyond ASCII, and \<open>int\<close> at the limit of 4300 digits.\<close>

lemmas characters_eval =
  characters.simps char_width_def code_point_def less_char_def less_eq_char_def

lemma py_int_arabic: "py_int [CHR 0xD9, CHR 0xA1, CHR 0xD9, CHR 0xA2] = Inr 12"
proof -
  have "characters [CHR 0xD9, CHR 0xA1, CHR 0xD9, CHR 0xA2] =
        Some [[CHR 0xD9, CHR 0xA1], [CHR 0xD9, CHR 0xA2]]"
    by (simp add: characters_eval)
  moreover have "to_ascii_char [CHR 0xD9, CHR 0xA1] = Some CHR ''1''"
    "to_ascii_char [CHR 0xD9, CHR 0xA2] = Some CHR ''2''"
    by (simp_all add: to_ascii_char_def code_point_def is_space_def decimal_value_def
        decimal_zeros_def Let_def)
  ultimately have "to_ascii [CHR 0xD9, CHR 0xA1, CHR 0xD9, CHR 0xA2] = Some ''12''"
    by (simp add: to_ascii_def)
  then show ?thesis by (simp add: py_int_eval)
qed

lemma py_int_nbsp: "py_int [CHR 0xC2, CHR 0xA0, CHR ''4'', CHR ''2'', CHR 0xC2, CHR 0xA0] = Inr 42"
proof -
  have "characters [CHR 0xC2, CHR 0xA0, CHR ''4'', CHR ''2'', CHR 0xC2, CHR 0xA0] =
        Some [[CHR 0xC2, CHR 0xA0], ''4'', ''2'', [CHR 0xC2, CHR 0xA0]]"
    by (simp add: characters_eval)
  moreover have "to_ascii_char [CHR 0xC2, CHR 0xA0] = Some CHR 0x20"
    "to_ascii_char ''4'' = Some CHR ''4''" "to_ascii_char ''2'' = Some CHR ''2''"
    by (simp_all add: to_ascii_char_def code_point_def is_space_def Let_def)
  ultimately have "to_ascii [CHR 0xC2, CHR 0xA0, CHR ''4'', CHR ''2'', CHR 0xC2, CHR 0xA0] =
      Some '' 42 ''"
    by (simp add: to_ascii_def)
  then show ?thesis by (simp add: py_int_eval)
qed

lemma digits_from_ones: "\<exists>v. digits_from acc (replicate n CHR ''1'') = Some v"
proof (induction n arbitrary: acc rule: less_induct)
  case (less n)
  show ?case
  proof (cases n)
    case 0
    then show ?thesis by simp
  next
    case (Suc m)
    show ?thesis
    proof (cases m)
      case 0
      then show ?thesis using Suc by (simp add: digit_val_def is_digit_def less_eq_char_def)
    next
      case (Suc j)
      then show ?thesis using \<open>n = Suc m\<close> less[of m]
        by (simp add: digit_val_def is_digit_def less_eq_char_def)
    qed
  qed
qed

lemma py_int_digit_limit:
  "\<exists>v. py_int (replicate 4300 CHR ''1'') = Inr v"
  "py_int (replicate 4301 CHR ''1'') = Inl (ValueError ''int'')"
proof -
  have a: "is_ascii (replicate n CHR ''1'')" for n
    by (simp add: is_ascii_def list_all_iff less_char_def)
  have s: "strip_with int_space (replicate n CHR ''1'') = replicate n CHR ''1''" if "0 < n" for n
    using that by (intro strip_no_space) (simp_all add: int_space_def less_eq_char_def)
  have f: "filter is_digit (replicate n CHR ''1'') = replicate n CHR ''1''" for n
    by (simp add: is_digit_def less_eq_char_def)
  show "py_int (replicate 4301 CHR ''1'') = Inl (ValueError ''int'')"
    using a[of 4301] s[of 4301] f[of 4301]
    by (simp add: py_int_def ascii_int_def int_max_str_digits_def)
  have r: "replicate 4300 CHR ''1'' = CHR ''1'' # replicate 4299 CHR ''1''"
    by (simp add: numeral_eq_Suc)
  obtain v where v: "digits (CHR ''1'' # replicate 4299 CHR ''1'') = Some v"
    using digits_from_ones[of 1 4299]
    by (auto simp: digits_def digit_val_def is_digit_def less_eq_char_def)
  have "ascii_int (replicate 4300 CHR ''1'') = Some (int v)"
    unfolding ascii_int_def s[of 4300, simplified] Let_def f
    by (simp add: int_max_str_digits_def) (simp add: r v)
  then show "\<exists>v. py_int (replicate 4300 CHR ''1'') = Inr v"
    using a[of 4300] by (simp add: py_int_def)
qed

lemma strip_nbsp: "strip [CHR 0xC2, CHR 0xA0, CHR ''o'', CHR 0x1C, CHR 0xE3, CHR 0x80, CHR 0x80] = ''o''"
proof -
  have "characters [CHR 0xC2, CHR 0xA0, CHR ''o'', CHR 0x1C, CHR 0xE3, CHR 0x80, CHR 0x80] =
        Some [[CHR 0xC2, CHR 0xA0], ''o'', [CHR 0x1C], [CHR 0xE3, CHR 0x80, CHR 0x80]]"
    by (simp add: characters_eval)
  then show ?thesis by (simp add: strip_def code_point_def is_space_def)
qed

text \<open>The file with the repeated header name, and the file of forty rows.\<close>

lemma get_data_tie:
  "get_data tie_fs ''tie'' =
     Inr [(''id'', replicate 39 ''1'' @ [''2'']), (''dept'', replicate 40 ''A''),
          (''salary'', replicate 39 ''1'' @ [''68''])]"
  by (simp add: tie_fs_def get_data_eval numeral_eq_Suc)

lemma get_data_ragged:
  "get_data ragged_fs ''ragged'' =
     Inr [(''id'', [''1'']), (''dept'', [''A'']), (''s'', [''5'', ''abc''])]"
  by (simp add: ragged_fs_def get_data_eval)

lemma py_int_5: "py_int ''5'' = Inr 5"
  by (simp add: py_int_eval)

lemma get_reports_ragged:
  "get_reports ragged_fs ''ragged'' =
     Inr [(''A'', \<lparr>min_salary = 5, max_salary = 5, head_count = 1, mean_salary = 5\<rparr>)]"
proof -
  let ?content = "[(''id'', [''1'']), (''dept'', [''A'']), (''s'', [''5'', ''abc''])]"
  have l: "2 \<le> length ?content" by simp
  have "salaries_by_departments ragged_fs ''ragged'' = Inr [(''A'', [5])]"
    using salaries_by_departments_unfold[OF get_data_ragged l]
    by (simp add: py_int_5 bind_def dict_get_def)
  then show ?thesis
    by (simp add: get_reports_def bind_def department_record_def py_min_def py_max_def
        py_truediv_def to_double_numeral py_round2_numeral)
qed

lemma py_int_tie: "py_int ''1'' = Inr 1" "py_int ''68'' = Inr 68"
  by (simp_all add: py_int_eval)

lemma mean_tie: "py_round2 (to_double (107 / 40)) = 1503076375634903 / 562949953421312"
proof -
  have "(2::rat) powi 1 \<le> \<bar>107 / 40\<bar>" "\<bar>107 / 40 :: rat\<bar> < 2 powi (1 + 1)"
    by simp_all
  moreover have "\<lfloor>(107 / 40 :: rat) * 2 ^ 51\<rfloor> = 6023564501608038"
    by (rule floor_unique) simp_all
  ultimately have d: "to_double (107 / 40) = 6023564501608038 / 2 ^ 51"
    using to_double_eval[of 1 "107 / 40"]
    by (simp add: rne_def Let_def power_int_minus divide_simps)
  have "\<lfloor>(6023564501608038 / 2 ^ 51 :: rat) * 100\<rfloor> = 267"
    by (rule floor_unique) simp_all
  then have r: "rne (6023564501608038 / 2 ^ 51 * 100) = 267"
    by (simp add: rne_def Let_def)
  have "(2::rat) powi 1 \<le> \<bar>267 / 100\<bar>" "\<bar>267 / 100 :: rat\<bar> < 2 powi (1 + 1)"
    by simp_all
  moreover have "\<lfloor>(267 / 100 :: rat) * 2 ^ 51\<rfloor> = 6012305502539612"
    by (rule floor_unique) simp_all
  ultimately have "to_double (267 / 100) = 1503076375634903 / 562949953421312"
    using to_double_eval[of 1 "267 / 100"]
    by (simp add: rne_def Let_def power_int_minus divide_simps)
  then show ?thesis unfolding py_round2_def d r by simp
qed

lemma in_range_tie: "\<bar>to_double (107 / 40)\<bar> < 2 powi 1024"
proof -
  have "(2::rat) powi 1 \<le> \<bar>107 / 40\<bar>" "\<bar>107 / 40 :: rat\<bar> < 2 powi (1 + 1)"
    by simp_all
  moreover have "\<lfloor>(107 / 40 :: rat) * 2 ^ 51\<rfloor> = 6023564501608038"
    by (rule floor_unique) simp_all
  ultimately have "to_double (107 / 40) = 6023564501608038 / 2 ^ 51"
    using to_double_eval[of 1 "107 / 40"]
    by (simp add: rne_def Let_def power_int_minus divide_simps)
  then show ?thesis by simp
qed

lemma spec_rounding_tie: "round_half_even (107 / 40) = 268 / 100" "round_half_up (107 / 40) = 268 / 100"
proof -
  have f: "\<lfloor>(107 / 40 :: rat) * 100\<rfloor> = 267" by (rule floor_unique) simp_all
  have g: "\<lfloor>(107 / 40 :: rat) * 100 + 1 / 2\<rfloor> = 268" by (rule floor_unique) simp_all
  show "round_half_even (107 / 40) = 268 / 100"
    using f by (simp add: round_half_even_def rne_def Let_def)
  show "round_half_up (107 / 40) = 268 / 100"
    using g by (simp add: round_half_up_def)
qed

lemma tie_salaries:
  "department_salaries ''A'' (replicate 40 ''A'') (replicate 39 ''1'' @ [''68'']) =
     replicate 39 1 @ [68]"
proof -
  have "zip (replicate 40 ''A'') (replicate 39 ''1'' @ [''68'']) =
        replicate 39 (''A'', ''1'') @ [(''A'', ''68'')]"
    by (simp add: numeral_eq_Suc)
  then show ?thesis by (simp add: department_salaries_def py_int_tie)
qed

lemma tie_summary:
  "summary (replicate 39 1 @ [68]) =
     \<lparr>min_salary = 1, max_salary = 68, head_count = 40,
      mean_salary = 1503076375634903 / 562949953421312\<rparr>"
proof -
  have "sum_list (replicate 39 1 @ [68 :: int]) = 107" by (simp add: sum_list_replicate)
  moreover have "set (replicate 39 1 @ [68 :: int]) = {1, 68}" by auto
  ultimately show ?thesis by (simp add: summary_def mean_tie)
qed

lemma tie_in_range: "mean_in_range (replicate 39 1 @ [68])"
proof -
  have "sum_list (replicate 39 1 @ [68 :: int]) = 107" by (simp add: sum_list_replicate)
  then show ?thesis using in_range_tie by (simp add: mean_in_range_def)
qed

lemma get_reports_tie:
  "get_reports tie_fs ''tie'' =
     Inr [(''A'', \<lparr>min_salary = 1, max_salary = 68, head_count = 40,
                  mean_salary = 1503076375634903 / 562949953421312\<rparr>)]"
proof -
  let ?content = "[(''id'', replicate 39 ''1'' @ [''2'']), (''dept'', replicate 40 ''A''),
                   (''salary'', replicate 39 ''1'' @ [''68''])]"
  have l: "2 \<le> length ?content" by simp
  have t: "table_invariant ?content 40" by (simp add: table_invariant_def)
  have r: "remdups (replicate 40 ''A'') = [''A'']" by (simp add: numeral_eq_Suc)
  show ?thesis
    using get_reports_valid[OF get_data_tie l t]
    by (simp add: py_int_tie tie_salaries tie_in_range tie_summary r)
qed


subsection \<open>Claims about the report\<close>

text \<open>
  C1, amended. For a loaded table with at least two columns, all of the same length,
  whose salary cells (last column) all parse under \<open>int\<close>, and in which the quotient
  \<open>sum / head_count\<close> of every department is within the range of a float, \<open>get_reports\<close>
  returns a mapping whose keys are exactly the distinct values of the second column, and
  the record of a department has \<open>min_salary\<close> and \<open>max_salary\<close> the least and greatest
  parsed salary of its rows, \<open>head_count\<close> the number of its rows, and \<open>mean_salary\<close> the
  float \<open>round(sum / head_count, 2)\<close>: the float nearest to the quotient, rounded
  half-to-even to two decimal places, and again the nearest float. This is not the
  quotient rounded to two decimal places: see the second example below.
\<close>

theorem get_reports_correct:
  assumes "get_data fs name = Inr content"
    and "2 \<le> length content"
    and "table_invariant content n"
    and "departments = snd (content ! 1)"
    and "salaries = snd (last content)"
    and "\<forall>s\<in>set salaries. \<exists>v. py_int s = Inr v"
    and "\<forall>d\<in>set departments. mean_in_range (department_salaries d departments salaries)"
  shows "\<exists>report. get_reports fs name = Inr report \<and>
           keys report = sort (remdups departments) \<and>
           set (keys report) = set departments \<and>
           (\<forall>d\<in>set departments. \<exists>data.
              dict_get report d = Inr data \<and>
              min_salary data = Min (set (department_salaries d departments salaries)) \<and>
              max_salary data = Max (set (department_salaries d departments salaries)) \<and>
              head_count data = length (filter (\<lambda>x. x = d) departments) \<and>
              mean_salary data =
                py_round2 (to_double (of_int (sum_list (department_salaries d departments salaries)) /
                                      of_int (int (head_count data)))))"
proof -
  define report where
    "report = map (\<lambda>d. (d, summary (department_salaries d departments salaries))) (sort (remdups departments))"
  have np: "\<not> (\<exists>s\<in>set (snd (last content)). py_int s = Inl (ValueError ''int''))"
    using assms(5,6) by auto
  have g: "get_reports fs name = Inr report"
    using get_reports_valid[OF assms(1-3)] np assms(4,5,7) by (simp add: report_def)
  have len: "length departments = length salaries"
    using valid_table_lengths[OF assms(2,3)] assms(4,5) by simp
  have k: "keys report = sort (remdups departments)" by (simp add: report_def keys_map)
  have "dict_get report d = Inr (summary (department_salaries d departments salaries))"
    if "d \<in> set departments" for d
    using that by (simp add: report_def dict_get_map)
  then have "\<exists>data. dict_get report d = Inr data \<and>
              min_salary data = Min (set (department_salaries d departments salaries)) \<and>
              max_salary data = Max (set (department_salaries d departments salaries)) \<and>
              head_count data = length (filter (\<lambda>x. x = d) departments) \<and>
              mean_salary data =
                py_round2 (to_double (of_int (sum_list (department_salaries d departments salaries)) /
                                      of_int (int (head_count data))))"
    if "d \<in> set departments" for d
    using that length_department_salaries[OF len, of d] by (simp add: summary_def)
  then show ?thesis using g k by auto
qed

theorem get_reports_correct_witness:
  "\<exists>report. get_reports staff_fs ''staff'' = Inr report \<and> keys report = [''A'', ''B''] \<and>
     (\<exists>data. dict_get report ''A'' = Inr data \<and> min_salary data = 100 \<and> max_salary data = 300 \<and>
        head_count data = 2 \<and> mean_salary data = 200) \<and>
     (\<exists>data. dict_get report ''B'' = Inr data \<and> min_salary data = 200 \<and> max_salary data = 200 \<and>
        head_count data = 1 \<and> mean_salary data = 200)"
proof -
  let ?content = "[(''id'', [''1'', ''2'', ''3'']), (''dept'', [''A'', ''A'', ''B'']),
                   (''team'', [''X'', ''Y'', ''Z'']), (''salary'', [''100'', ''300'', ''200''])]"
  let ?departments = "[''A'', ''A'', ''B'']"
  let ?salaries = "[''100'', ''300'', ''200'']"
  have l: "2 \<le> length ?content" by simp
  have t: "table_invariant ?content 3" by (simp add: table_invariant_def)
  have d: "?departments = snd (?content ! 1)" by simp
  have s: "?salaries = snd (last ?content)" by simp
  have p: "\<forall>s\<in>set ?salaries. \<exists>v. py_int s = Inr v" by (simp add: py_int_staff)
  have r: "\<forall>d\<in>set ?departments. mean_in_range (department_salaries d ?departments ?salaries)"
    by (simp add: staff_salaries staff_in_range)
  from get_reports_correct[OF get_data_staff l t d s p r]
  obtain report where g: "get_reports staff_fs ''staff'' = Inr report"
    and k: "keys report = sort (remdups ?departments)"
    and m: "\<forall>d\<in>set ?departments. \<exists>data.
              dict_get report d = Inr data \<and>
              min_salary data = Min (set (department_salaries d ?departments ?salaries)) \<and>
              max_salary data = Max (set (department_salaries d ?departments ?salaries)) \<and>
              head_count data = length (filter (\<lambda>x. x = d) ?departments) \<and>
              mean_salary data =
                py_round2 (to_double (of_int (sum_list (department_salaries d ?departments ?salaries)) /
                                      of_int (int (head_count data))))"
    by blast
  from m[rule_format, of "''A''"] have a: "\<exists>data. dict_get report ''A'' = Inr data \<and>
      min_salary data = 100 \<and> max_salary data = 300 \<and> head_count data = 2 \<and> mean_salary data = 200"
    by (auto simp: staff_salaries to_double_numeral py_round2_numeral)
  from m[rule_format, of "''B''"] have b: "\<exists>data. dict_get report ''B'' = Inr data \<and>
      min_salary data = 200 \<and> max_salary data = 200 \<and> head_count data = 1 \<and> mean_salary data = 200"
    by (auto simp: staff_salaries to_double_numeral py_round2_numeral)
  show ?thesis using g k a b by (simp add: sort_A_B)
qed

text \<open>
  The claim as worded fails in two ways. A single row with the salary \<open>10 ^ 309\<close> is a
  table with columns of equal length and a decimal salary cell, and \<open>get_reports\<close>
  returns no mapping for it: the division of line 99 raises \<open>OverflowError\<close>. And for
  forty rows of one department whose salaries add up to 107 the quotient is 2.675, which
  is 2.68 when rounded to two decimal places, half-to-even as well as half-up, while
  \<open>mean_salary\<close> is the float nearest to 2.67: the float nearest to 2.675 lies below
  2.675.
\<close>

theorem get_reports_correct_counterexample:
  "get_reports huge_fs ''huge'' = Inl OverflowError \<and>
   get_reports tie_fs ''tie'' =
     Inr [(''A'', \<lparr>min_salary = 1, max_salary = 68, head_count = 40,
                  mean_salary = 1503076375634903 / 562949953421312\<rparr>)] \<and>
   round_half_even (107 / 40) = 268 / 100 \<and>
   round_half_up (107 / 40) = 268 / 100"
proof -
  let ?content = "[(''id'', [''1'']), (''dept'', [''A'']), (''salary'', [huge_salary])]"
  have l: "2 \<le> length ?content" by simp
  have t: "table_invariant ?content 1" by (simp add: table_invariant_def)
  have s: "department_salaries ''A'' [''A''] [huge_salary] = [10 ^ 309]"
    by (simp add: department_salaries_def py_int_huge)
  have "(2::rat) powi 1024 \<le> \<bar>of_int (10 ^ 309) / of_int 1\<bar>" by simp
  from to_double_ge_pow[OF this] have "\<not> mean_in_range [10 ^ 309]"
    by (simp add: mean_in_range_def)
  then have "get_reports huge_fs ''huge'' = Inl OverflowError"
    using get_reports_valid[OF get_data_huge l t] s by (simp add: py_int_huge)
  then show ?thesis
    using get_reports_tie spec_rounding_tie by simp
qed

text \<open>
  C5. For a loaded table with at least two columns, all of length \<open>n\<close>, every report that
  \<open>get_reports\<close> returns has head counts that add up to \<open>n\<close>; and a report is returned
  whenever every salary cell parses and every department's quotient is within the range
  of a float.
\<close>

theorem head_count_sum:
  assumes "get_data fs name = Inr content"
    and "2 \<le> length content"
    and "table_invariant content n"
  shows "(\<forall>report. get_reports fs name = Inr report \<longrightarrow>
            sum_list (map (\<lambda>(d, data). head_count data) report) = n) \<and>
         ((\<forall>s\<in>set (snd (last content)). \<exists>v. py_int s = Inr v) \<and>
          (\<forall>d\<in>set (snd (content ! 1)).
             mean_in_range (department_salaries d (snd (content ! 1)) (snd (last content)))) \<longrightarrow>
          (\<exists>report. get_reports fs name = Inr report))"
proof -
  define departments where "departments = snd (content ! 1)"
  define salaries where "salaries = snd (last content)"
  have len: "length departments = n" "length salaries = n"
    using valid_table_lengths[OF assms(2,3)] by (simp_all add: departments_def salaries_def)
  have 1: "sum_list (map (\<lambda>(d, data). head_count data) report) = n"
    if r: "get_reports fs name = Inr report" for report
  proof -
    from r get_reports_valid[OF assms] have
      "report = map (\<lambda>d. (d, summary (department_salaries d departments salaries))) (sort (remdups departments))"
      by (auto simp: departments_def salaries_def split: if_splits)
    then have "map (\<lambda>(d, data). head_count data) report =
               map (\<lambda>d. length (department_salaries d departments salaries)) (sort (remdups departments))"
      by (simp add: summary_def comp_def)
    also have "\<dots> = map (\<lambda>d. length (filter (\<lambda>x. x = d) departments)) (sort (remdups departments))"
      using len by (simp add: length_department_salaries)
    finally show ?thesis using len by (simp add: head_count_total)
  qed
  have 2: "\<exists>report. get_reports fs name = Inr report"
    if "\<forall>s\<in>set salaries. \<exists>v. py_int s = Inr v"
      "\<forall>d\<in>set departments. mean_in_range (department_salaries d departments salaries)"
  proof -
    have "\<not> (\<exists>s\<in>set (snd (last content)). py_int s = Inl (ValueError ''int''))"
      using that(1) by (auto simp: salaries_def)
    then show ?thesis using get_reports_valid[OF assms] that(2)
      by (simp add: departments_def salaries_def)
  qed
  show ?thesis using 1 2 unfolding departments_def salaries_def by blast
qed

theorem head_count_sum_witness:
  "\<exists>report. get_reports staff_fs ''staff'' = Inr report \<and>
     sum_list (map (\<lambda>(d, data). head_count data) report) = 3"
proof -
  let ?content = "[(''id'', [''1'', ''2'', ''3'']), (''dept'', [''A'', ''A'', ''B'']),
                   (''team'', [''X'', ''Y'', ''Z'']), (''salary'', [''100'', ''300'', ''200''])]"
  have l: "2 \<le> length ?content" by simp
  have t: "table_invariant ?content 3" by (simp add: table_invariant_def)
  from head_count_sum[OF get_data_staff l t] get_reports_staff show ?thesis by simp
qed

text \<open>
  C7, amended. For a loaded table with at least two columns, all of the same length,
  \<open>get_reports\<close> fails with the \<open>ValueError\<close> of \<open>int\<close> exactly when some salary cell does
  not parse under \<open>int\<close>; the error is raised in the first loop, before any record is
  computed, and no report is returned.
\<close>

theorem get_reports_value_error:
  assumes "get_data fs name = Inr content"
    and "2 \<le> length content"
    and "table_invariant content n"
  shows "(get_reports fs name = Inl (ValueError ''int'') \<longleftrightarrow>
            (\<exists>s\<in>set (snd (last content)). \<forall>v. py_int s \<noteq> Inr v)) \<and>
         ((\<exists>s\<in>set (snd (last content)). \<forall>v. py_int s \<noteq> Inr v) \<longrightarrow>
            salaries_by_departments fs name = Inl (ValueError ''int'') \<and>
            (\<forall>report. get_reports fs name \<noteq> Inr report))"
proof -
  have e: "(\<exists>s\<in>set (snd (last content)). \<forall>v. py_int s \<noteq> Inr v) \<longleftrightarrow>
           (\<exists>s\<in>set (snd (last content)). py_int s = Inl (ValueError ''int''))"
    using py_int_cases by (metis sum.distinct(1))
  show ?thesis
    unfolding e
    using get_reports_valid[OF assms] salaries_by_departments_invalid[OF assms]
    by (auto split: if_splits)
qed

theorem get_reports_value_error_witness:
  "get_reports bad_fs ''bad'' = Inl (ValueError ''int'') \<and>
   get_reports staff_fs ''staff'' \<noteq> Inl (ValueError ''int'')"
proof -
  let ?bad = "[(''id'', [''1'', ''2'']), (''dept'', [''A'', ''B'']), (''salary'', [''100'', ''abc''])]"
  have l: "2 \<le> length ?bad" by simp
  have t: "table_invariant ?bad 2" by (simp add: table_invariant_def)
  have "\<exists>s\<in>set (snd (last ?bad)). \<forall>v. py_int s \<noteq> Inr v" by (simp add: py_int_abc)
  with get_reports_value_error[OF get_data_bad l t]
  have 1: "get_reports bad_fs ''bad'' = Inl (ValueError ''int'')" by blast
  let ?content = "[(''id'', [''1'', ''2'', ''3'']), (''dept'', [''A'', ''A'', ''B'']),
                   (''team'', [''X'', ''Y'', ''Z'']), (''salary'', [''100'', ''300'', ''200''])]"
  have l': "2 \<le> length ?content" by simp
  have t': "table_invariant ?content 3" by (simp add: table_invariant_def)
  have "\<not> (\<exists>s\<in>set (snd (last ?content)). \<forall>v. py_int s \<noteq> Inr v)" by (simp add: py_int_staff)
  with get_reports_value_error[OF get_data_staff l' t']
  have 2: "get_reports staff_fs ''staff'' \<noteq> Inl (ValueError ''int'')" by blast
  show ?thesis using 1 2 by simp
qed

text \<open>
  The claim as worded fails for a table whose columns differ in length. The header
  \<open>id;dept;s;s\<close> with the record \<open>1;A;5;abc\<close> gives the columns \<open>id = ['1']\<close>,
  \<open>dept = ['A']\<close> and \<open>s = ['5', 'abc']\<close>; \<open>zip\<close> stops after the one department, the cell
  \<open>abc\<close> is never parsed, and a report is returned.
\<close>

theorem get_reports_value_error_counterexample:
  "get_data ragged_fs ''ragged'' =
     Inr [(''id'', [''1'']), (''dept'', [''A'']), (''s'', [''5'', ''abc''])] \<and>
   py_int ''abc'' = Inl (ValueError ''int'') \<and>
   get_reports ragged_fs ''ragged'' =
     Inr [(''A'', \<lparr>min_salary = 5, max_salary = 5, head_count = 1, mean_salary = 5\<rparr>)]"
  by (simp add: get_data_ragged py_int_abc get_reports_ragged)

text \<open>
  C9. For a loaded table with at least two columns, all of the same length, the keys of
  the accumulator are the values of the department column and every salary list in it is
  non-empty when the second loop starts (the accumulator exists whenever every salary
  cell parses), so that \<open>get_reports\<close> never fails with the \<open>ValueError\<close> of \<open>min\<close> or of
  \<open>max\<close> on an empty sequence nor with \<open>ZeroDivisionError\<close>.
\<close>

theorem salary_lists_nonempty:
  assumes "get_data fs name = Inr content"
    and "2 \<le> length content"
    and "table_invariant content n"
  shows "(\<forall>acc. salaries_by_departments fs name = Inr acc \<longrightarrow>
            set (keys acc) = set (snd (content ! 1)) \<and> (\<forall>xs\<in>set (map snd acc). xs \<noteq> [])) \<and>
         ((\<forall>s\<in>set (snd (last content)). \<exists>v. py_int s = Inr v) \<longrightarrow>
            (\<exists>acc. salaries_by_departments fs name = Inr acc)) \<and>
         get_reports fs name \<noteq> Inl (ValueError ''min'') \<and>
         get_reports fs name \<noteq> Inl (ValueError ''max'') \<and>
         get_reports fs name \<noteq> Inl ZeroDivisionError"
proof -
  define departments where "departments = snd (content ! 1)"
  define salaries where "salaries = snd (last content)"
  have len: "length departments = length salaries"
    using valid_table_lengths[OF assms(2,3)] by (simp add: departments_def salaries_def)
  have 1: "set (keys acc) = set departments \<and> (\<forall>xs\<in>set (map snd acc). xs \<noteq> [])"
    if s: "salaries_by_departments fs name = Inr acc" for acc
  proof -
    have "\<not> (\<exists>s\<in>set (snd (last content)). py_int s = Inl (ValueError ''int''))"
      using salaries_by_departments_invalid[OF assms] s by auto
    then have "\<forall>s\<in>set (snd (last content)). \<exists>v. py_int s = Inr v"
      using py_int_cases by blast
    from salaries_by_departments_valid[OF assms this] s have
      acc: "acc = map (\<lambda>d. (d, department_salaries d departments salaries)) (sort (remdups departments))"
      by (simp add: departments_def salaries_def)
    have "set (map snd acc) = (\<lambda>d. department_salaries d departments salaries) ` set departments"
      by (auto simp: acc)
    then show ?thesis using department_salaries_nonempty[OF len] by (auto simp: acc keys_map)
  qed
  have 2: "\<exists>acc. salaries_by_departments fs name = Inr acc"
    if "\<forall>s\<in>set (snd (last content)). \<exists>v. py_int s = Inr v"
    using salaries_by_departments_valid[OF assms that] by blast
  have 3: "get_reports fs name \<noteq> Inl (ValueError ''min'')"
    "get_reports fs name \<noteq> Inl (ValueError ''max'')"
    "get_reports fs name \<noteq> Inl ZeroDivisionError"
    using get_reports_valid[OF assms] by (auto split: if_splits)
  show ?thesis using 1 2 3 unfolding departments_def by blast
qed

theorem salary_lists_nonempty_witness:
  "salaries_by_departments staff_fs ''staff'' = Inr [(''A'', [100, 300]), (''B'', [200])] \<and>
   get_reports staff_fs ''staff'' \<noteq> Inl (ValueError ''min'') \<and>
   get_reports staff_fs ''staff'' \<noteq> Inl ZeroDivisionError"
proof -
  let ?content = "[(''id'', [''1'', ''2'', ''3'']), (''dept'', [''A'', ''A'', ''B'']),
                   (''team'', [''X'', ''Y'', ''Z'']), (''salary'', [''100'', ''300'', ''200''])]"
  have l: "2 \<le> length ?content" by simp
  have t: "table_invariant ?content 3" by (simp add: table_invariant_def)
  from salary_lists_nonempty[OF get_data_staff l t] salaries_by_departments_staff
  show ?thesis by simp
qed


text \<open>
  C6, amended. Whenever \<open>get_reports\<close> returns a report, the record of a department
  whose salaries all have magnitude at most \<open>2 ^ 53\<close> satisfies
  \<open>min_salary \<le> mean_salary \<le> max_salary\<close>, the mean being the rounded float; and if its
  \<open>head_count\<close> is 1, then \<open>min_salary\<close>, \<open>max_salary\<close> and \<open>mean_salary\<close> all equal its
  single salary.
\<close>

theorem mean_between_min_and_max:
  assumes "salaries_by_departments fs name = Inr acc"
    and "get_reports fs name = Inr report"
    and "dict_get acc d = Inr salaries"
    and "\<forall>s\<in>set salaries. \<bar>s\<bar> \<le> 2 ^ 53"
  shows "\<exists>data. dict_get report d = Inr data \<and>
           of_int (min_salary data) \<le> mean_salary data \<and>
           mean_salary data \<le> of_int (max_salary data) \<and>
           (head_count data = 1 \<longrightarrow>
              (\<exists>s. salaries = [s] \<and> min_salary data = s \<and> max_salary data = s \<and>
                   mean_salary data = of_int s))"
proof -
  from get_reports_Inr[OF assms(2)] assms(1) have
    ok: "\<forall>xs\<in>set (map snd acc). xs \<noteq> [] \<and> mean_in_range xs"
    and r: "report = map (\<lambda>(d, xs). (d, summary xs)) acc"
    by auto
  have d: "dict_get report d = Inr (summary salaries)"
    unfolding r using assms(3) by (rule dict_get_map_values)
  have "(d, salaries) \<in> set acc" using assms(3) by (auto simp: dict_get_Inr dest: map_of_SomeD)
  then have "salaries \<in> set (map snd acc)" by force
  with ok have ne: "salaries \<noteq> []" by blast
  define q :: rat where "q = of_int (sum_list salaries) / of_int (int (length salaries))"
  have "Min (set salaries) \<in> set salaries" "Max (set salaries) \<in> set salaries"
    using ne by (simp_all add: Min_in Max_in)
  then have b: "\<bar>Min (set salaries)\<bar> \<le> 2 ^ 53" "\<bar>Max (set salaries)\<bar> \<le> 2 ^ 53"
    using assms(4) by blast+
  have "of_int (Min (set salaries)) \<le> q" "q \<le> of_int (Max (set salaries))"
    using mean_between_min_max[OF ne] by (simp_all add: q_def)
  from mean_between[OF this b] have
    m: "of_int (Min (set salaries)) \<le> py_round2 (to_double q)"
       "py_round2 (to_double q) \<le> of_int (Max (set salaries))"
    by simp_all
  have single: "\<exists>s. salaries = [s] \<and> min_salary (summary salaries) = s \<and>
        max_salary (summary salaries) = s \<and> mean_salary (summary salaries) = of_int s"
    if "head_count (summary salaries) = 1"
  proof -
    from that have "length salaries = 1" by (simp add: summary_def)
    then obtain s where s: "salaries = [s]" by (cases salaries) auto
    have "py_round2 (to_double q) = of_int s" using m s by simp
    then show ?thesis using s by (simp add: summary_def q_def)
  qed
  show ?thesis
    using d m single by (auto simp: summary_def q_def)
qed

theorem mean_between_min_and_max_witness:
  "\<exists>data. dict_get [(''A'', \<lparr>min_salary = 100, max_salary = 300, head_count = 2, mean_salary = 200\<rparr>),
                     (''B'', \<lparr>min_salary = 200, max_salary = 200, head_count = 1, mean_salary = 200\<rparr>)]
            ''B'' = Inr data \<and>
     of_int (min_salary data) \<le> mean_salary data \<and> mean_salary data \<le> of_int (max_salary data) \<and>
     min_salary data = 200 \<and> max_salary data = 200 \<and> mean_salary data = 200"
proof -
  have a: "dict_get [(''A'', [100, 300]), (''B'', [200::int])] ''B'' = Inr [200]"
    by (simp add: dict_get_def)
  have b: "\<forall>s\<in>set [200::int]. \<bar>s\<bar> \<le> 2 ^ 53" by simp
  from mean_between_min_and_max[OF salaries_by_departments_staff get_reports_staff a b]
  show ?thesis by (auto simp: dict_get_def)
qed

text \<open>
  For the single salary \<open>2 ^ 53 + 1\<close> the quotient is rounded to the float \<open>2 ^ 53\<close>: the
  mean is below the minimum and differs from the only salary.
\<close>

theorem mean_between_min_and_max_counterexample:
  "get_reports big_fs ''big'' =
     Inr [(''A'', \<lparr>min_salary = 9007199254740993, max_salary = 9007199254740993,
                  head_count = 1, mean_salary = 9007199254740992\<rparr>)] \<and>
   \<not> of_int (min_salary \<lparr>min_salary = 9007199254740993, max_salary = 9007199254740993,
                        head_count = 1, mean_salary = 9007199254740992\<rparr>)
     \<le> mean_salary \<lparr>min_salary = 9007199254740993, max_salary = 9007199254740993,
                      head_count = 1, mean_salary = 9007199254740992\<rparr>"
  by (simp add: get_reports_big)

text \<open>
  C10. The keys of a returned report are the distinct values of the department column
  in ascending lexicographic order, and \<open>make_report_csv\<close> writes, to the typed name
  stripped and suffixed with \<open>.csv\<close> if needed, the header row followed by exactly one
  row per department, in the order of the report, holding the department, \<open>min_salary\<close>,
  \<open>max_salary\<close>, \<open>head_count\<close> and \<open>mean_salary\<close>.
\<close>

theorem report_order_and_export:
  assumes "get_data fs name = Inr content"
    and "get_reports fs name = Inr report"
  shows "keys report = sort (remdups (snd (content ! 1))) \<and>
         sorted (keys report) \<and> distinct (keys report) \<and>
         make_report_csv typed report =
           (add_csv_suffix (strip typed),
            report_header #
            map (\<lambda>(department, data).
                   [Text department, Integer (min_salary data), Integer (max_salary data),
                    Integer (int (head_count data)), Float (mean_salary data)])
                report) \<and>
         length (snd (make_report_csv typed report)) = length report + 1 \<and>
         map hd (tl (snd (make_report_csv typed report))) = map Text (keys report)"
proof -
  from get_reports_Inr[OF assms(2)] assms(1) obtain acc where
    k: "keys acc = sort (remdups (snd (content ! 1)))"
    and r: "report = map (\<lambda>(d, xs). (d, summary xs)) acc"
    by auto
  have kr: "keys report = sort (remdups (snd (content ! 1)))"
    using k by (simp add: r keys_map_values)
  have "map hd (tl (snd (make_report_csv typed report))) = map Text (keys report)"
    by (simp add: make_report_csv_def keys_def comp_def case_prod_beta)
  then show ?thesis using kr by (simp add: make_report_csv_def)
qed

theorem report_order_and_export_witness:
  "\<exists>report. get_reports staff_fs ''staff'' = Inr report \<and> keys report = [''A'', ''B''] \<and>
     make_report_csv '' out '' report =
       (''out.csv'',
        [report_header,
         [Text ''A'', Integer 100, Integer 300, Integer 2, Float 200],
         [Text ''B'', Integer 200, Integer 200, Integer 1, Float 200]])"
proof -
  have "characters '' out '' = Some ['' '', ''o'', ''u'', ''t'', '' '']"
    by (simp add: characters.simps char_width_def less_char_def)
  then have s: "add_csv_suffix (strip '' out '') = ''out.csv''"
    by (simp add: strip_def code_point_def is_space_def add_csv_suffix_def endswith_def)
  from report_order_and_export[OF get_data_staff get_reports_staff, of "'' out ''"]
  show ?thesis by (simp add: get_reports_staff s keys_def)
qed

end
